theory Spec2Isabelle
  imports Complex_Main "HOL-Library.Log_Nat"
begin

section \<open>Voice record bar of the chat composer\<close>

text \<open>
  A shallow embedding of \<^verbatim>\<open>history_view_voice_record_bar.cpp\<close>: the helpers
  \<^verbatim>\<open>Duration\<close> and \<^verbatim>\<open>FormatVoiceDuration\<close>, the widgets \<^verbatim>\<open>RecordLevel\<close> and
  \<^verbatim>\<open>RecordLock\<close>, and the controller \<^verbatim>\<open>VoiceRecordBar\<close>.
\<close>

subsection \<open>C++ arithmetic\<close>

text \<open>
  \<^verbatim>\<open>int\<close> is 32 bits wide and signed overflow is undefined behaviour, so a checked
  operation yields \<open>None\<close> where the C++ result is undefined.
\<close>

definition int32 :: "int \<Rightarrow> bool" where
  "int32 v \<longleftrightarrow> - (2 ^ 31) \<le> v \<and> v < 2 ^ 31"

definition chk :: "int \<Rightarrow> int option" where
  "chk v = (if int32 v then Some v else None)"

text \<open>Integer division and remainder truncate towards zero.\<close>

definition cdiv :: "int \<Rightarrow> int \<Rightarrow> int" where
  "cdiv a b = sgn a * sgn b * (\<bar>a\<bar> div \<bar>b\<bar>)"

definition cmod :: "int \<Rightarrow> int \<Rightarrow> int" where
  "cmod a b = a - b * cdiv a b"

subsection \<open>Binary64 floating point\<close>

text \<open>
  A \<^verbatim>\<open>float64\<close> is a finite double, given by its exact rational value, an infinity or a
  NaN. Both zeros are \<open>Finite 0\<close>: no computation below tells them apart, since the only
  zero divisor is the conversion of the \<^verbatim>\<open>int\<close> 0, which is \<open>+0.0\<close>.
  Arithmetic is correctly rounded: the exact result is rounded to the nearest number with a
  53-bit significand, ties to the even significand. The exponent is not bounded; the
  operands below come from \<^verbatim>\<open>int\<close>s, so their quotients and products stay far inside the
  range of normal doubles.
\<close>

datatype f64 = Finite rat | PosInf | NegInf | NaN

text \<open>\<open>expo x\<close> is the binary exponent of a positive rational: \<open>2^e \<le> x < 2^(e+1)\<close>.\<close>

definition expo :: "rat \<Rightarrow> int" where
  "expo x =
     (let e0 = bitlen (fst (quotient_of x)) - bitlen (snd (quotient_of x))
      in if 2 powi e0 \<le> x then e0 else e0 - 1)"

text \<open>Rounding a rational to the nearest integer, ties to even.\<close>

definition rhe :: "rat \<Rightarrow> int" where
  "rhe q =
     (let f = \<lfloor>q\<rfloor>; r = q - of_int f
      in if r < 1 / 2 then f
         else if 1 / 2 < r then f + 1
         else if even f then f else f + 1)"

definition f64_round :: "rat \<Rightarrow> rat" where
  "f64_round x =
     (if x = 0 then 0
      else let u = 2 powi (expo \<bar>x\<bar> - 52)
           in sgn x * of_int (rhe (\<bar>x\<bar> / u)) * u)"

definition f64_of_int :: "int \<Rightarrow> f64" where
  "f64_of_int i = Finite (of_int i)"

fun f64_div :: "f64 \<Rightarrow> f64 \<Rightarrow> f64" where
  "f64_div (Finite a) (Finite b) =
     (if b = 0 then (if a = 0 then NaN else if 0 < a then PosInf else NegInf)
      else Finite (f64_round (a / b)))"
| "f64_div (Finite a) PosInf = Finite 0"
| "f64_div (Finite a) NegInf = Finite 0"
| "f64_div PosInf (Finite b) = (if 0 \<le> b then PosInf else NegInf)"
| "f64_div NegInf (Finite b) = (if 0 \<le> b then NegInf else PosInf)"
| "f64_div _ _ = NaN"

fun f64_mul :: "f64 \<Rightarrow> f64 \<Rightarrow> f64" where
  "f64_mul (Finite a) (Finite b) = Finite (f64_round (a * b))"
| "f64_mul (Finite a) PosInf = (if a = 0 then NaN else if 0 < a then PosInf else NegInf)"
| "f64_mul (Finite a) NegInf = (if a = 0 then NaN else if 0 < a then NegInf else PosInf)"
| "f64_mul PosInf (Finite b) = (if b = 0 then NaN else if 0 < b then PosInf else NegInf)"
| "f64_mul NegInf (Finite b) = (if b = 0 then NaN else if 0 < b then NegInf else PosInf)"
| "f64_mul PosInf PosInf = PosInf"
| "f64_mul NegInf NegInf = PosInf"
| "f64_mul PosInf NegInf = NegInf"
| "f64_mul NegInf PosInf = NegInf"
| "f64_mul _ _ = NaN"

text \<open>The comparisons \<^verbatim>\<open><\<close> and \<^verbatim>\<open>==\<close>: false whenever an operand is a NaN.\<close>

fun f64_less :: "f64 \<Rightarrow> f64 \<Rightarrow> bool" where
  "f64_less NaN _ = False"
| "f64_less _ NaN = False"
| "f64_less (Finite a) (Finite b) = (a < b)"
| "f64_less NegInf NegInf = False"
| "f64_less NegInf _ = True"
| "f64_less _ NegInf = False"
| "f64_less PosInf _ = False"
| "f64_less _ PosInf = True"

definition f64_eq :: "f64 \<Rightarrow> f64 \<Rightarrow> bool" where
  "f64_eq a b \<longleftrightarrow> a \<noteq> NaN \<and> a = b"

text \<open>
  Conversion to \<^verbatim>\<open>int\<close> truncates towards zero; it is undefined for a value that is not
  finite or whose truncation does not fit.
\<close>

fun f64_to_int :: "f64 \<Rightarrow> int option" where
  "f64_to_int (Finite a) = chk (if 0 \<le> a then \<lfloor>a\<rfloor> else \<lceil>a\<rceil>)"
| "f64_to_int _ = None"

text \<open>\<^verbatim>\<open>std::clamp(v, lo, hi)\<close>.\<close>

definition clamp :: "f64 \<Rightarrow> f64 \<Rightarrow> f64 \<Rightarrow> f64" where
  "clamp v lo hi = (if f64_less v lo then lo else if f64_less hi v then hi else v)"

subsection \<open>Constants and helpers of the file\<close>

text \<open>
  \<^verbatim>\<open>::Media::Player::kDefaultFrequency\<close>, the sample rate of the capture backend, is
  declared in \<^verbatim>\<open>media/audio/media_audio.h\<close>, which is not among the sources: it is a
  parameter \<open>freq\<close> of everything that uses it.
\<close>

definition kAudioVoiceMaxLength :: int where
  "kAudioVoiceMaxLength = 100 * 60"

definition kMaxSamples :: "int \<Rightarrow> int" where
  "kMaxSamples freq = freq * kAudioVoiceMaxLength"

definition kPrecision :: int where
  "kPrecision = 10"

definition Duration :: "int \<Rightarrow> int \<Rightarrow> int" where
  "Duration freq samples = cdiv samples freq"

text \<open>\<^verbatim>\<open>QString::arg(int)\<close>: the decimal numeral of an \<^verbatim>\<open>int\<close>.\<close>

fun digits :: "nat \<Rightarrow> string" where
  "digits n =
     (if n < 10 then [''0123456789'' ! n]
      else digits (n div 10) @ [''0123456789'' ! (n mod 10)])"

declare digits.simps [simp del]

definition number :: "int \<Rightarrow> string" where
  "number i = (if i < 0 then CHR ''-'' # digits (nat (- i)) else digits (nat i))"

text \<open>
  Modelled from the spec: \<^verbatim>\<open>Ui::FormatDurationText\<close> (\<^verbatim>\<open>ui/text/format_values\<close>) is not
  among the sources. The spec shows its output for 0 and 1 second inside the formatted
  voice duration, \<^verbatim>\<open>0:00\<close> and \<^verbatim>\<open>0:01\<close>: minutes, a colon, seconds in two digits.
\<close>

definition FormatDurationText :: "int \<Rightarrow> string" where
  "FormatDurationText duration =
     (let minutes = cdiv duration 60; seconds = cmod duration 60
      in number minutes @ '':'' @ (if seconds \<ge> 10 then [] else ''0'') @ number seconds)"

text \<open>
  \<^verbatim>\<open>FormatVoiceDuration\<close>. The duration formatter \<open>fdt\<close> and the decimal point of the
  system locale (\<^verbatim>\<open>QLocale::system().decimalPoint()\<close>) come from outside the file. The
  pattern \<^verbatim>\<open>%1%2%3\<close> concatenates its three arguments.
\<close>

definition FormatVoiceDuration ::
  "(int \<Rightarrow> string) \<Rightarrow> char \<Rightarrow> int \<Rightarrow> int \<Rightarrow> string option" where
  "FormatVoiceDuration fdt decimalPoint freq samples =
     (case f64_to_int
             (f64_mul (f64_of_int kPrecision)
                (f64_div (f64_of_int samples) (f64_of_int freq))) of
        None \<Rightarrow> None
      | Some duration \<Rightarrow>
          (let durationString = fdt (cdiv duration kPrecision);
               decimalPart = cmod duration kPrecision
           in Some (durationString @ [decimalPoint] @ number decimalPart)))"

subsection \<open>RecordLevel\<close>

type_synonym QPoint = "int \<times> int"

text \<open>
  \<^verbatim>\<open>RecordLevel::inCircle\<close>. \<open>radii\<close> is the style constant
  \<^verbatim>\<open>st::historyRecordLevelMaxRadius\<close>; the constructor sets \<^verbatim>\<open>_height\<close> to twice the
  radius and \<^verbatim>\<open>_center\<close> to half of \<^verbatim>\<open>_height\<close>. \<^verbatim>\<open>std::abs\<close> of the least \<^verbatim>\<open>int\<close>
  is undefined, like every overflow.
\<close>

definition level_height :: "int \<Rightarrow> int" where
  "level_height radii = radii * 2"

definition level_center :: "int \<Rightarrow> int" where
  "level_center radii = cdiv (level_height radii) 2"

definition inCircle :: "int \<Rightarrow> QPoint \<Rightarrow> bool option" where
  "inCircle radii localPos =
     (case chk (fst localPos - level_center radii) of None \<Rightarrow> None | Some d \<Rightarrow>
      case chk \<bar>d\<bar> of None \<Rightarrow> None | Some dx \<Rightarrow>
      if dx > radii then Some False
      else
        case chk (snd localPos - level_center radii) of None \<Rightarrow> None | Some e \<Rightarrow>
        case chk \<bar>e\<bar> of None \<Rightarrow> None | Some dy \<Rightarrow>
        if dy > radii then Some False
        else
          case chk (dx + dy) of None \<Rightarrow> None | Some s \<Rightarrow>
          if s \<le> radii then Some True
          else
            case chk (dx * dx) of None \<Rightarrow> None | Some dx2 \<Rightarrow>
            case chk (dy * dy) of None \<Rightarrow> None | Some dy2 \<Rightarrow>
            case chk (dx2 + dy2) of None \<Rightarrow> None | Some lhs \<Rightarrow>
            case chk (radii * radii) of None \<Rightarrow> None | Some rhs \<Rightarrow>
            Some (lhs \<le> rhs))"

text \<open>The plain Euclidean predicate the hit test is compared with.\<close>

definition euclid_inside :: "int \<Rightarrow> QPoint \<Rightarrow> bool" where
  "euclid_inside radii localPos \<longleftrightarrow>
     (fst localPos - level_center radii)\<^sup>2 + (snd localPos - level_center radii)\<^sup>2 \<le> radii\<^sup>2"

subsection \<open>Reactive variables\<close>

text \<open>
  \<^verbatim>\<open>rpl::variable\<close> belongs to the reactive library, which is not among the sources. An
  assignment stores the value and fires \<^verbatim>\<open>changes()\<close> only when the new value is not
  \<^verbatim>\<open>==\<close> the stored one; subscribers run synchronously, inside the assignment. Each
  assignment below is a function from the old state to the new one that also performs
  what the subscribers of that variable do.
\<close>

subsection \<open>RecordLock\<close>

text \<open>
  \<open>lock_height\<close> is \<^verbatim>\<open>height()\<close>, set once by the constructor from
  \<^verbatim>\<open>st::historyRecordLockSize\<close>; \<open>lock_animating\<close> tells whether \<^verbatim>\<open>_lockAnimation\<close>
  has been started.
\<close>

record RecordLock =
  lock_isHidden :: bool
  lock_progress :: f64
  lock_height :: int
  lock_animating :: bool

definition isLocked :: "RecordLock \<Rightarrow> bool" where
  "isLocked l \<longleftrightarrow> f64_eq (lock_progress l) (Finite 1)"

text \<open>
  \<^verbatim>\<open>_progress = value\<close>. The second component tells whether \<^verbatim>\<open>locks()\<close> fired: that
  stream is \<^verbatim>\<open>_progress.changes()\<close> filtered by \<^verbatim>\<open>isLocked()\<close>. The subscriber inside
  \<^verbatim>\<open>RecordLock::init\<close> starts \<^verbatim>\<open>_lockAnimation\<close>.
\<close>

definition assign_progress :: "RecordLock \<Rightarrow> f64 \<Rightarrow> RecordLock \<times> bool" where
  "assign_progress l v =
     (if f64_eq (lock_progress l) v then (l, False)
      else
        (let l' = l\<lparr>lock_progress := v\<rparr>
         in if isLocked l' then (l'\<lparr>lock_animating := True\<rparr>, True) else (l', False)))"

definition requestPaintProgress :: "RecordLock \<Rightarrow> f64 \<Rightarrow> RecordLock \<times> bool" where
  "requestPaintProgress l progress =
     (if lock_isHidden l \<or> isLocked l then (l, False) else assign_progress l progress)"

text \<open>
  \<^verbatim>\<open>hide()\<close> and \<^verbatim>\<open>show()\<close> of the widget. \<^verbatim>\<open>shownValue()\<close> fires when the visibility
  changes; its subscriber in \<^verbatim>\<open>RecordLock::init\<close> stops the animation and resets the
  progress when the widget gets hidden.
\<close>

definition lock_hide :: "RecordLock \<Rightarrow> RecordLock \<times> bool" where
  "lock_hide l =
     (if lock_isHidden l then (l, False)
      else assign_progress (l\<lparr>lock_isHidden := True, lock_animating := False\<rparr>) (Finite 0))"

definition lock_show :: "RecordLock \<Rightarrow> RecordLock" where
  "lock_show l = l\<lparr>lock_isHidden := False\<rparr>"

text \<open>
  What happens to the lock within one recording session: it is shown, and progress is
  requested any number of times. It is hidden only after the session was stopped.
  \<open>lock_session\<close> runs such calls and counts the \<^verbatim>\<open>locks()\<close> events.
\<close>

datatype lock_call = Request f64 | Show

fun lock_session :: "RecordLock \<Rightarrow> lock_call list \<Rightarrow> RecordLock \<times> nat" where
  "lock_session l [] = (l, 0)"
| "lock_session l (Request p # cs) =
     (let (l1, fired) = requestPaintProgress l p;
          (l2, n) = lock_session l1 cs
      in (l2, (if fired then 1 else 0) + n))"
| "lock_session l (Show # cs) = lock_session (lock_show l) cs"

subsection \<open>VoiceRecordBar: state\<close>

text \<open>
  The completion callbacks handed to \<^verbatim>\<open>visibilityAnimate\<close>: \<^verbatim>\<open>appearanceCallback\<close> of
  \<^verbatim>\<open>startRecording\<close>, and \<^verbatim>\<open>disappearanceCallback\<close> of \<^verbatim>\<open>stop\<close>, which captures \<^verbatim>\<open>send\<close>.
\<close>

datatype callback = AppearanceCallback | DisappearanceCallback bool

text \<open>
  What the bar does to the outside, in order: the events of its public streams, the calls
  to the capture instance (\<^verbatim>\<open>start()\<close>, \<^verbatim>\<open>stop()\<close>, \<^verbatim>\<open>stop(callback)\<close>), the confirmation
  box it shows, and the calls to the window.
\<close>

datatype effect =
    RecordingStateChange bool
  | LockShowStart bool
  | SendActionUpdate int
  | SendVoiceRequest "nat list" "int list" int
  | CaptureStart
  | CaptureStop
  | CaptureStopResult
  | ShowConfirmBox nat
  | ActivateWindow
  | SetInnerFocus

text \<open>
  The fields follow the members of the class. An animation field holds what the running
  \<^verbatim>\<open>Ui::Animations::Simple\<close> was started with, \<open>None\<close> when it is not animating. The
  subscriptions and states owned by \<^verbatim>\<open>_recordingLifetime\<close> are \<open>sendEvents\<close> (the handler
  of the send button's events), \<open>captureUpdates\<close> (the handler of the capture updates, with
  its flag \<^verbatim>\<open>shown\<close>), \<open>clickOutsideFilter\<close> (the installed event filter, with its
  \<^verbatim>\<open>QPointer<ConfirmBox>\<close>) and \<open>levelEvents\<close> (the handlers of the level button's clicks
  and \<^verbatim>\<open>actives()\<close>). \<open>boxes\<close> are the confirmation boxes that exist, \<open>resultCallbacks\<close>
  counts the callbacks handed to \<^verbatim>\<open>stop(callback)\<close> and not yet called, \<open>typeRecord\<close> is
  \<^verbatim>\<open>isTypeRecord()\<close>, a property of the send button.
\<close>

record VoiceRecordBar =
  alive :: bool
  isHidden :: bool
  barPos :: QPoint
  barSize :: "int \<times> int"
  levelPos :: QPoint
  radii :: int
  typeRecord :: bool
  recording :: bool
  inField :: bool
  lockShowing :: bool
  recordingSamples :: int
  showAnimation :: "(bool \<times> callback) option"
  showLockAnimation :: "bool option"
  lock :: RecordLock
  sendEvents :: bool
  captureUpdates :: "bool option"
  clickOutsideFilter :: "nat option option"
  levelEvents :: bool
  resultCallbacks :: nat
  boxes :: "nat list"
  boxCounter :: nat
  emitted :: "effect list"

definition emit :: "VoiceRecordBar \<Rightarrow> effect list \<Rightarrow> VoiceRecordBar" where
  "emit s os = s\<lparr>emitted := emitted s @ os\<rparr>"

text \<open>\<^verbatim>\<open>mapFromGlobal\<close> of a widget whose top left corner is at \<open>origin\<close>, and
  \<^verbatim>\<open>rect().contains\<close> for a widget of the given size.\<close>

definition mapFromGlobal :: "QPoint \<Rightarrow> QPoint \<Rightarrow> QPoint" where
  "mapFromGlobal origin globalPos = (fst globalPos - fst origin, snd globalPos - snd origin)"

definition rect_contains :: "int \<times> int \<Rightarrow> QPoint \<Rightarrow> bool" where
  "rect_contains sz p \<longleftrightarrow> 0 \<le> fst p \<and> fst p < fst sz \<and> 0 \<le> snd p \<and> snd p < snd sz"

subsection \<open>VoiceRecordBar: operations\<close>

text \<open>\<^verbatim>\<open>_recording = value\<close>; \<^verbatim>\<open>recordingStateChanges()\<close> is \<^verbatim>\<open>_recording.changes()\<close>.\<close>

definition set_recording :: "VoiceRecordBar \<Rightarrow> bool \<Rightarrow> VoiceRecordBar" where
  "set_recording s value =
     (if recording s = value then s else emit (s\<lparr>recording := value\<rparr>) [RecordingStateChange value])"

text \<open>\<^verbatim>\<open>_inField = value\<close>; its subscriber \<^verbatim>\<open>activeAnimate\<close> only repaints.\<close>

definition set_inField :: "VoiceRecordBar \<Rightarrow> bool \<Rightarrow> VoiceRecordBar" where
  "set_inField s value = s\<lparr>inField := value\<rparr>"

text \<open>
  \<^verbatim>\<open>_lockShowing = value\<close>; the subscriber in \<^verbatim>\<open>init\<close> shows the lock widget and starts
  \<^verbatim>\<open>_showLockAnimation\<close> in the direction of the value.
\<close>

definition set_lockShowing :: "VoiceRecordBar \<Rightarrow> bool \<Rightarrow> VoiceRecordBar" where
  "set_lockShowing s value =
     (if lockShowing s = value then s
      else
        (let s1 = emit (s\<lparr>lockShowing := value\<rparr>) [LockShowStart value]
         in s1\<lparr>lock := lock_show (lock s1), showLockAnimation := Some value\<rparr>))"

text \<open>
  \<^verbatim>\<open>visibilityAnimate\<close>. \<^verbatim>\<open>Ui::Animations::Simple\<close> is not among the sources: one object
  runs at most one animation, and \<^verbatim>\<open>start\<close> on it replaces the running animation and its
  callback. The frames before the last one only repaint.
\<close>

definition visibilityAnimate :: "VoiceRecordBar \<Rightarrow> bool \<Rightarrow> callback \<Rightarrow> VoiceRecordBar" where
  "visibilityAnimate s show cb = s\<lparr>showAnimation := Some (show, cb)\<rparr>"

definition stop :: "VoiceRecordBar \<Rightarrow> bool \<Rightarrow> VoiceRecordBar" where
  "stop s send = visibilityAnimate (set_lockShowing s False) False (DisappearanceCallback send)"

definition stopRecording :: "VoiceRecordBar \<Rightarrow> bool \<Rightarrow> VoiceRecordBar" where
  "stopRecording s send =
     (if \<not> send then emit s [CaptureStop]
      else (emit s [CaptureStopResult])\<lparr>resultCallbacks := resultCallbacks s + 1\<rparr>)"

text \<open>The callback handed to \<^verbatim>\<open>stop\<close> of the capture instance by \<^verbatim>\<open>stopRecording\<close>.\<close>

definition stopRecordingResult ::
  "int \<Rightarrow> VoiceRecordBar \<Rightarrow> nat list \<Rightarrow> int list \<Rightarrow> int \<Rightarrow> VoiceRecordBar" where
  "stopRecordingResult freq s bytes waveform samples =
     (if bytes = [] then s
      else emit s [ActivateWindow, SendVoiceRequest bytes waveform (Duration freq samples)])"

definition recordingLifetime_destroy :: "VoiceRecordBar \<Rightarrow> VoiceRecordBar" where
  "recordingLifetime_destroy s =
     s\<lparr>sendEvents := False, captureUpdates := None, clickOutsideFilter := None,
       levelEvents := False\<rparr>"

text \<open>
  The two completion callbacks. \<open>None\<close> is a failed \<^verbatim>\<open>Expects\<close>. \<open>available\<close> is what
  \<^verbatim>\<open>instance()->available()\<close> answers.
\<close>

definition disappearanceCallback :: "VoiceRecordBar \<Rightarrow> bool \<Rightarrow> VoiceRecordBar option" where
  "disappearanceCallback s send =
     (if showAnimation s \<noteq> None then None
      else
        (let s1 = s\<lparr>isHidden := True\<rparr>;
             s2 = set_recording s1 False;
             s3 = stopRecording s2 send;
             s4 = set_inField s3 False;
             s5 = recordingLifetime_destroy s4;
             s6 = s5\<lparr>recordingSamples := 0\<rparr>
         in Some (emit s6 [SendActionUpdate (- 1), SetInnerFocus])))"

definition appearanceCallback :: "VoiceRecordBar \<Rightarrow> bool \<Rightarrow> VoiceRecordBar option" where
  "appearanceCallback s available =
     (if showAnimation s \<noteq> None then None
      else if \<not> available then Some (stop s False)
      else
        (let s1 = set_recording s True;
             s2 = emit s1 [SetInnerFocus, CaptureStart]
         in Some (s2\<lparr>captureUpdates := Some False\<rparr>)))"

text \<open>
  The last frame of \<^verbatim>\<open>_showAnimation\<close>: the animation stops, then the frame callback of
  \<^verbatim>\<open>visibilityAnimate\<close> sees the final value and calls the completion callback.
\<close>

definition showAnimationFinished :: "VoiceRecordBar \<Rightarrow> bool \<Rightarrow> VoiceRecordBar option" where
  "showAnimationFinished s available =
     (case showAnimation s of
        None \<Rightarrow> Some s
      | Some (show, cb) \<Rightarrow>
          (let s1 = s\<lparr>showAnimation := None\<rparr>
           in case cb of
                AppearanceCallback \<Rightarrow> appearanceCallback s1 available
              | DisappearanceCallback send \<Rightarrow> disappearanceCallback s1 send))"

definition finishAnimating :: "VoiceRecordBar \<Rightarrow> VoiceRecordBar" where
  "finishAnimating s = s\<lparr>showAnimation := None\<rparr>"

definition startRecording :: "VoiceRecordBar \<Rightarrow> VoiceRecordBar" where
  "startRecording s =
     (let s1 = visibilityAnimate s True AppearanceCallback;
          s2 = s1\<lparr>isHidden := False\<rparr>;
          s3 = set_inField s2 True
      in s3\<lparr>sendEvents := True\<rparr>)"

definition recordUpdated :: "int \<Rightarrow> VoiceRecordBar \<Rightarrow> nat \<Rightarrow> int \<Rightarrow> VoiceRecordBar" where
  "recordUpdated freq s level samples =
     (let s1 = s\<lparr>recordingSamples := samples\<rparr>;
          s2 = (if samples < 0 \<or> samples \<ge> kMaxSamples freq
                then stop s1 (samples > 0 \<and> inField s1) else s1)
      in emit s2 [SendActionUpdate 0])"

text \<open>The subscriber of \<^verbatim>\<open>instance()->updated()\<close> installed by \<^verbatim>\<open>appearanceCallback\<close>.\<close>

definition captureUpdated :: "int \<Rightarrow> VoiceRecordBar \<Rightarrow> nat \<Rightarrow> int \<Rightarrow> VoiceRecordBar" where
  "captureUpdated freq s level samples =
     (case captureUpdates s of
        None \<Rightarrow> s
      | Some shown \<Rightarrow>
          (let s1 = (if \<not> shown \<and> showAnimation s = None
                     then set_lockShowing (s\<lparr>captureUpdates := Some True\<rparr>) True else s)
           in recordUpdated freq s1 level samples))"

text \<open>The error handler of the same subscription; the stream of updates ends with the error.\<close>

definition captureError :: "VoiceRecordBar \<Rightarrow> VoiceRecordBar" where
  "captureError s =
     (if captureUpdates s = None then s else stop (s\<lparr>captureUpdates := None\<rparr>) False)"

text \<open>
  The subscriber of \<^verbatim>\<open>_lock->locks()\<close> in \<^verbatim>\<open>init\<close>: \<^verbatim>\<open>installClickOutsideFilter\<close> with a
  fresh null \<^verbatim>\<open>QPointer\<close>, the subscriptions to the level button, and \<^verbatim>\<open>_inField = false\<close>
  from \<^verbatim>\<open>rpl::single(false)\<close>.
\<close>

definition installClickOutsideFilter :: "VoiceRecordBar \<Rightarrow> VoiceRecordBar" where
  "installClickOutsideFilter s = s\<lparr>clickOutsideFilter := Some None\<rparr>"

definition locksHandler :: "VoiceRecordBar \<Rightarrow> VoiceRecordBar" where
  "locksHandler s = set_inField ((installClickOutsideFilter s)\<lparr>levelEvents := True\<rparr>) False"

definition with_lock :: "VoiceRecordBar \<Rightarrow> RecordLock \<times> bool \<Rightarrow> VoiceRecordBar" where
  "with_lock s r = (let s1 = s\<lparr>lock := fst r\<rparr> in if snd r then locksHandler s1 else s1)"

text \<open>
  \<^verbatim>\<open>computeAndSetLockProgress\<close>; \<open>lockProgress\<close> is the value it hands to the lock widget.
\<close>

definition lockProgress :: "VoiceRecordBar \<Rightarrow> QPoint \<Rightarrow> f64" where
  "lockProgress s globalPos =
     (let localPos = mapFromGlobal (barPos s) globalPos;
          lower = lock_height (lock s);
          higher = 0;
          progress = f64_div (f64_of_int (snd localPos)) (f64_of_int (higher - lower))
      in clamp progress (Finite 0) (Finite 1))"

definition computeAndSetLockProgress :: "VoiceRecordBar \<Rightarrow> QPoint \<Rightarrow> VoiceRecordBar" where
  "computeAndSetLockProgress s globalPos =
     with_lock s (requestPaintProgress (lock s) (lockProgress s globalPos))"

text \<open>
  The last frame of \<^verbatim>\<open>_showLockAnimation\<close>; \<open>cursorPos\<close> is \<^verbatim>\<open>QCursor::pos()\<close>.
\<close>

definition showLockAnimationFinished :: "VoiceRecordBar \<Rightarrow> QPoint \<Rightarrow> VoiceRecordBar" where
  "showLockAnimationFinished s cursorPos =
     (case showLockAnimation s of
        None \<Rightarrow> s
      | Some show \<Rightarrow>
          (let s1 = s\<lparr>showLockAnimation := None\<rparr>
           in if \<not> show then with_lock s1 (lock_hide (lock s1))
              else computeAndSetLockProgress s1 cursorPos))"

text \<open>
  The subscriber of the send button's events installed by \<^verbatim>\<open>startRecording\<close>, with its
  filter. \<open>None\<close> is an overflow inside \<^verbatim>\<open>inCircle\<close>.
\<close>

datatype send_event = MouseMove QPoint | MouseButtonRelease | OtherSendEvent

definition sendEvent :: "VoiceRecordBar \<Rightarrow> send_event \<Rightarrow> VoiceRecordBar option" where
  "sendEvent s e =
     (if \<not> (sendEvents s \<and> typeRecord s \<and> \<not> isLocked (lock s)) then Some s
      else
        case e of
          MouseMove globalPos \<Rightarrow>
            (let localPos = mapFromGlobal (barPos s) globalPos;
                 inF = rect_contains (barSize s) localPos
             in case (if inF then Some inF
                      else inCircle (radii s) (mapFromGlobal (levelPos s) globalPos)) of
                  None \<Rightarrow> None
                | Some v \<Rightarrow>
                    (let s1 = set_inField s v
                     in if showLockAnimation s1 \<noteq> None then Some s1
                        else Some (computeAndSetLockProgress s1 globalPos)))
        | MouseButtonRelease \<Rightarrow> Some (stop s (inField s))
        | OtherSendEvent \<Rightarrow> Some s)"

text \<open>
  The subscribers installed by the \<^verbatim>\<open>locks()\<close> handler: a click on the level button, and
  \<^verbatim>\<open>RecordLevel::actives\<close>, which maps a mouse move, a leave and an enter of the level
  button to a truth value.
\<close>

datatype level_event = LevelClick | LevelMouseMove QPoint | LevelLeave | LevelEnter QPoint

definition levelEvent :: "VoiceRecordBar \<Rightarrow> level_event \<Rightarrow> VoiceRecordBar option" where
  "levelEvent s e =
     (if \<not> levelEvents s then Some s
      else
        case e of
          LevelClick \<Rightarrow> Some (stop s True)
        | LevelMouseMove localPos \<Rightarrow> map_option (set_inField s) (inCircle (radii s) localPos)
        | LevelLeave \<Rightarrow> Some (set_inField s False)
        | LevelEnter cursorPos \<Rightarrow>
            map_option (set_inField s) (inCircle (radii s) (mapFromGlobal (levelPos s) cursorPos)))"

subsection \<open>VoiceRecordBar: the click-outside filter\<close>

datatype FilterType = Continue | ShowBox | Cancel

datatype EventFilterResult = ResultContinue | ResultCancel

datatype key = Key_Escape | Key_Enter | Key_Return | Key_Other

datatype qevent = KeyPress key | ContextMenu | Shortcut | MouseButtonPress | OtherEvent

text \<open>
  A \<^verbatim>\<open>QPointer\<close> is null once its object is destroyed, so the pointer of the filter is
  \<open>Some i\<close> exactly while the box \<open>i\<close> it was set to exists. \<^verbatim>\<open>Ui::show\<close> creates the box;
  boxes are numbered in the order of their creation.
\<close>

definition showBox :: "VoiceRecordBar \<Rightarrow> VoiceRecordBar" where
  "showBox s =
     (case clickOutsideFilter s of
        None \<Rightarrow> s
      | Some (Some i) \<Rightarrow> s
      | Some None \<Rightarrow>
          (let i = boxCounter s
           in (emit s [ShowConfirmBox i])
                \<lparr>boxes := boxes s @ [i], boxCounter := i + 1,
                 clickOutsideFilter := Some (Some i)\<rparr>))"

text \<open>
  \<^verbatim>\<open>computeResult\<close>; \<open>box\<close> is the pointer of the filter and \<open>esc\<close> the value of
  \<^verbatim>\<open>_escFilter && _escFilter()\<close>.
\<close>

definition computeResult ::
  "VoiceRecordBar \<Rightarrow> nat option \<Rightarrow> qevent \<Rightarrow> bool \<Rightarrow> FilterType \<times> VoiceRecordBar" where
  "computeResult s box e esc =
     (if \<not> isLocked (lock s) then (Continue, s)
      else
        (let noBox = (box = None)
         in case e of
              KeyPress k \<Rightarrow>
                (let isEsc = (k = Key_Escape);
                     isEnter = (k = Key_Enter \<or> k = Key_Return)
                 in if noBox then
                      (if isEnter then (Cancel, stop s True)
                       else if isEsc \<and> esc then (Continue, s)
                       else (ShowBox, s))
                    else ((if isEsc \<or> isEnter then Continue else ShowBox), s))
            | ContextMenu \<Rightarrow> (ShowBox, s)
            | Shortcut \<Rightarrow> (ShowBox, s)
            | MouseButtonPress \<Rightarrow> ((if noBox \<and> \<not> inField s then ShowBox else Continue), s)
            | OtherEvent \<Rightarrow> (Continue, s)))"

definition filterCallback ::
  "VoiceRecordBar \<Rightarrow> qevent \<Rightarrow> bool \<Rightarrow> EventFilterResult \<times> VoiceRecordBar" where
  "filterCallback s e esc =
     (case clickOutsideFilter s of
        None \<Rightarrow> (ResultContinue, s)
      | Some box \<Rightarrow>
          (case computeResult s box e esc of
             (ShowBox, s1) \<Rightarrow> (ResultCancel, showBox s1)
           | (Continue, s1) \<Rightarrow> (ResultContinue, s1)
           | (Cancel, s1) \<Rightarrow> (ResultCancel, s1)))"

text \<open>
  A confirmation box goes away (closed by the user, or by \<^verbatim>\<open>close()\<close>), and the callback
  \<^verbatim>\<open>sure\<close> of its discard button. The callback captures the bar by a plain pointer: it
  must not run once the bar is destroyed.
\<close>

definition boxDestroyed :: "VoiceRecordBar \<Rightarrow> nat \<Rightarrow> VoiceRecordBar" where
  "boxDestroyed s i =
     s\<lparr>boxes := removeAll i (boxes s),
       clickOutsideFilter :=
         (case clickOutsideFilter s of
            Some (Some j) \<Rightarrow> if i = j then Some None else Some (Some j)
          | f \<Rightarrow> f)\<rparr>"

definition sure :: "VoiceRecordBar \<Rightarrow> nat \<Rightarrow> VoiceRecordBar option" where
  "sure s i =
     (if i \<notin> set (boxes s) then Some s
      else if \<not> alive s then None
      else Some (boxDestroyed (stop s False) i))"

subsection \<open>VoiceRecordBar: results, destruction, events\<close>

text \<open>
  The capture instance calls a callback handed to \<^verbatim>\<open>stop(callback)\<close>; \<^verbatim>\<open>crl::guard\<close>
  drops the call when the bar is destroyed.
\<close>

definition captureResult ::
  "int \<Rightarrow> VoiceRecordBar \<Rightarrow> nat list \<Rightarrow> int list \<Rightarrow> int \<Rightarrow> VoiceRecordBar" where
  "captureResult freq s bytes waveform samples =
     (if resultCallbacks s = 0 then s
      else
        (let s1 = s\<lparr>resultCallbacks := resultCallbacks s - 1\<rparr>
         in if alive s1 then stopRecordingResult freq s1 bytes waveform samples else s1))"

text \<open>
  \<^verbatim>\<open>~VoiceRecordBar\<close>, followed by the destruction of the members: the animations and
  every subscription of the bar end with it.
\<close>

definition destructor :: "VoiceRecordBar \<Rightarrow> VoiceRecordBar" where
  "destructor s =
     (let s1 = (if recording s then stopRecording s False else s)
      in (recordingLifetime_destroy s1)
           \<lparr>alive := False, showAnimation := None, showLockAnimation := None\<rparr>)"

datatype event =
    StartRecording
  | ShowAnimationFinished bool
  | FinishAnimating
  | ShowLockAnimationFinished QPoint
  | CaptureUpdated nat int
  | CaptureError
  | SendEvent send_event
  | LevelEvent level_event
  | FilterEvent qevent bool
  | BoxSure nat
  | BoxDestroyed nat
  | CaptureResult "nat list" "int list" int
  | SetTypeRecord bool
  | Destroy

text \<open>The handlers that belong to the bar run only while it exists.\<close>

fun handle :: "int \<Rightarrow> VoiceRecordBar \<Rightarrow> event \<Rightarrow> VoiceRecordBar option" where
  "handle freq s StartRecording = Some (startRecording s)"
| "handle freq s (ShowAnimationFinished available) = showAnimationFinished s available"
| "handle freq s FinishAnimating = Some (finishAnimating s)"
| "handle freq s (ShowLockAnimationFinished cursorPos) =
     Some (showLockAnimationFinished s cursorPos)"
| "handle freq s (CaptureUpdated level samples) = Some (captureUpdated freq s level samples)"
| "handle freq s CaptureError = Some (captureError s)"
| "handle freq s (SendEvent e) = sendEvent s e"
| "handle freq s (LevelEvent e) = levelEvent s e"
| "handle freq s (FilterEvent e esc) = Some (snd (filterCallback s e esc))"
| "handle freq s (SetTypeRecord b) = Some (s\<lparr>typeRecord := b\<rparr>)"
| "handle freq s Destroy = Some (destructor s)"
| "handle freq s _ = Some s"

fun step :: "int \<Rightarrow> VoiceRecordBar \<Rightarrow> event \<Rightarrow> VoiceRecordBar option" where
  "step freq s (BoxSure i) = sure s i"
| "step freq s (BoxDestroyed i) = Some (boxDestroyed s i)"
| "step freq s (CaptureResult bytes waveform samples) =
     Some (captureResult freq s bytes waveform samples)"
| "step freq s e = (if alive s then handle freq s e else Some s)"

fun run :: "int \<Rightarrow> VoiceRecordBar \<Rightarrow> event list \<Rightarrow> VoiceRecordBar option" where
  "run freq s [] = Some s"
| "run freq s (e # es) = (case step freq s e of None \<Rightarrow> None | Some s1 \<Rightarrow> run freq s1 es)"

text \<open>
  The bar after its constructor and \<^verbatim>\<open>init\<close>: hidden, with a hidden lock. The arguments
  are the geometry, which the layout of the window and the style sheet decide.
\<close>

definition initial :: "QPoint \<Rightarrow> int \<times> int \<Rightarrow> QPoint \<Rightarrow> int \<Rightarrow> int \<Rightarrow> VoiceRecordBar" where
  "initial pos sz lpos r h =
     \<lparr>alive = True, isHidden = True, barPos = pos, barSize = sz, levelPos = lpos, radii = r,
      typeRecord = True, recording = False, inField = False, lockShowing = False,
      recordingSamples = 0, showAnimation = None, showLockAnimation = None,
      lock = \<lparr>lock_isHidden = True, lock_progress = Finite 0, lock_height = h,
               lock_animating = False\<rparr>,
      sendEvents = False, captureUpdates = None, clickOutsideFilter = None,
      levelEvents = False, resultCallbacks = 0, boxes = [], boxCounter = 0, emitted = []\<rparr>"

text \<open>
  Example states: a bar as the window lays it out, the same bar while it records (the show
  animation has finished and the capture has started), after the pointer was dragged
  up until the lock engaged, after the pointer left the bar without reaching the lock
  (\<open>example_early\<close>: the same before the show animation has ended; \<open>example_released\<close>:
  after the pointer was then released and one more capture update arrived), and after
  Escape and a context menu request arrived in the locked bar.
\<close>

definition example_bar :: VoiceRecordBar where
  "example_bar = initial (0, 500) (400, 50) (350, 495) 30 80"

definition example_recording :: VoiceRecordBar where
  "example_recording =
     (case run 48000 example_bar [StartRecording, ShowAnimationFinished True] of
        Some s \<Rightarrow> s | None \<Rightarrow> example_bar)"

definition example_locked :: VoiceRecordBar where
  "example_locked =
     (case run 48000 example_recording
             [CaptureUpdated 5 100, ShowLockAnimationFinished (380, 510),
              SendEvent (MouseMove (380, 400))] of
        Some s \<Rightarrow> s | None \<Rightarrow> example_bar)"

definition example_outside :: VoiceRecordBar where
  "example_outside =
     (case run 48000 example_recording [SendEvent (MouseMove (380, 480))] of
        Some s \<Rightarrow> s | None \<Rightarrow> example_bar)"

definition example_early :: VoiceRecordBar where
  "example_early =
     (case run 48000 example_bar [StartRecording, SendEvent (MouseMove (380, 480))] of
        Some s \<Rightarrow> s | None \<Rightarrow> example_bar)"

definition example_released :: VoiceRecordBar where
  "example_released =
     (case run 48000 example_outside [SendEvent MouseButtonRelease, CaptureUpdated 5 200] of
        Some s \<Rightarrow> s | None \<Rightarrow> example_bar)"

definition example_prompt :: VoiceRecordBar where
  "example_prompt =
     (case run 48000 example_locked
             [FilterEvent (KeyPress Key_Escape) False, FilterEvent ContextMenu False] of
        Some s \<Rightarrow> s | None \<Rightarrow> example_bar)"

text \<open>
  The confirmation boxes and the pointer of the filter agree: the pointer is set exactly
  when a box exists, to that box, and there is no other box.
\<close>

definition prompt_inv :: "VoiceRecordBar \<Rightarrow> bool" where
  "prompt_inv s \<longleftrightarrow>
     (case clickOutsideFilter s of
        None \<Rightarrow> length (boxes s) \<le> 1
      | Some None \<Rightarrow> boxes s = []
      | Some (Some i) \<Rightarrow> boxes s = [i])"

definition prompts :: "VoiceRecordBar \<Rightarrow> nat option option \<times> nat list" where
  "prompts s = (clickOutsideFilter s, boxes s)"

text \<open>
  From \<open>s\<close> to \<open>s'\<close> the recording state is the same, no result callback was handed to
  the capture, and what was emitted extends what had been emitted.
\<close>

definition quiet :: "VoiceRecordBar \<Rightarrow> VoiceRecordBar \<Rightarrow> bool" where
  "quiet s s' \<longleftrightarrow>
     recording s' = recording s \<and> resultCallbacks s' \<le> resultCallbacks s
     \<and> take (length (emitted s)) (emitted s') = emitted s
     \<and> CaptureStopResult \<notin> set (drop (length (emitted s)) (emitted s'))"

text \<open>The events of a run that all arrive while the lock is engaged.\<close>

fun locked_phase :: "int \<Rightarrow> VoiceRecordBar \<Rightarrow> event list \<Rightarrow> bool" where
  "locked_phase freq s [] = True"
| "locked_phase freq s (e # es) =
     (isLocked (lock s) \<and>
      (case step freq s e of None \<Rightarrow> True | Some s1 \<Rightarrow> locked_phase freq s1 es))"

text \<open>What \<^verbatim>\<open>computeAndSetLockProgress\<close> reads of the state: where the bar is, and how
  high the lock widget is.\<close>

definition geometry :: "VoiceRecordBar \<Rightarrow> QPoint \<times> int" where
  "geometry s = (barPos s, lock_height (lock s))"

section \<open>Properties\<close>

subsection \<open>The lock engages once\<close>

lemma requestPaintProgress_locked:
  "isLocked l \<Longrightarrow> requestPaintProgress l p = (l, False)"
  by (simp add: requestPaintProgress_def)

lemma lock_show_isLocked [simp]: "isLocked (lock_show l) = isLocked l"
  by (simp add: lock_show_def isLocked_def)

lemma lock_session_locked:
  "isLocked l \<Longrightarrow>
     lock_progress (fst (lock_session l cs)) = Finite 1 \<and> snd (lock_session l cs) = 0
     \<and> isLocked (fst (lock_session l cs))"
proof (induction cs arbitrary: l)
  case Nil
  then show ?case by (simp add: isLocked_def f64_eq_def)
next
  case (Cons c cs)
  then show ?case
    by (cases c) (simp_all add: requestPaintProgress_locked case_prod_beta)
qed

lemma requestPaintProgress_fired:
  "requestPaintProgress l p = (l', fired) \<Longrightarrow> fired = (\<not> isLocked l \<and> isLocked l')"
  by (auto simp: requestPaintProgress_def assign_progress_def Let_def isLocked_def f64_eq_def
      split: if_splits)

lemma lock_session_count:
  "\<not> isLocked l \<Longrightarrow>
     snd (lock_session l cs) = (if isLocked (fst (lock_session l cs)) then 1 else 0)"
proof (induction cs arbitrary: l)
  case Nil
  then show ?case by simp
next
  case (Cons c cs)
  show ?case
  proof (cases c)
    case (Request p)
    obtain l1 fired where r: "requestPaintProgress l p = (l1, fired)"
      by (cases "requestPaintProgress l p")
    have f: "fired = isLocked l1"
      using requestPaintProgress_fired [OF r] Cons.prems by simp
    show ?thesis
    proof (cases "isLocked l1")
      case True
      then show ?thesis
        using lock_session_locked [OF True, of cs] r f Request
        by (simp add: case_prod_beta)
    next
      case False
      then show ?thesis
        using Cons.IH [OF False] r f Request
        by (simp add: case_prod_beta)
    qed
  next
    case Show
    then show ?thesis using Cons.IH [of "lock_show l"] Cons.prems by simp
  qed
qed

text \<open>
  C2. Within a session, that is through any calls of \<^verbatim>\<open>show()\<close> and
  \<^verbatim>\<open>requestPaintProgress\<close> on the lock: once the lock is locked, the stored progress stays 1
  and \<^verbatim>\<open>locks()\<close> does not fire again; from an unlocked lock, \<^verbatim>\<open>locks()\<close> fires exactly once
  if the session ends locked, and not at all otherwise.
\<close>

theorem locked_once_per_session:
  "(isLocked l \<longrightarrow>
      lock_progress (fst (lock_session l cs)) = Finite 1 \<and> snd (lock_session l cs) = 0)
   \<and> (\<not> isLocked l \<longrightarrow>
      snd (lock_session l cs) = (if isLocked (fst (lock_session l cs)) then 1 else 0))"
  using lock_session_locked [of l cs] lock_session_count [of l cs] by blast

theorem locked_once_per_session_witness:
  "isLocked (lock example_locked)
   \<and> lock_progress (fst (lock_session (lock example_locked)
         [Request (Finite (1 / 2)), Request (Finite 1)])) = Finite 1
   \<and> snd (lock_session (lock example_locked) [Request (Finite (1 / 2)), Request (Finite 1)]) = 0
   \<and> \<not> isLocked (lock example_bar)
   \<and> snd (lock_session (lock example_bar)
         [Show, Request (Finite (1 / 2)), Request (Finite 1), Request (Finite (1 / 3)),
          Request (Finite 1)]) = 1"
proof -
  have a: "isLocked (lock example_locked)"
    by code_simp
  have b: "\<not> isLocked (lock example_bar)"
    by code_simp
  have c: "isLocked (fst (lock_session (lock example_bar)
         [Show, Request (Finite (1 / 2)), Request (Finite 1), Request (Finite (1 / 3)),
          Request (Finite 1)]))"
    by code_simp
  show ?thesis
    using a b c
      locked_once_per_session [of "lock example_locked"
        "[Request (Finite (1 / 2)), Request (Finite 1)]"]
      locked_once_per_session [of "lock example_bar"
        "[Show, Request (Finite (1 / 2)), Request (Finite 1), Request (Finite (1 / 3)),
          Request (Finite 1)]"]
    by simp
qed

subsection \<open>Hit test of the level button\<close>

lemma level_center_eq: "level_center r = r"
proof (cases "0 \<le> r")
  case True
  then show ?thesis by (simp add: level_center_def level_height_def cdiv_def sgn_if)
next
  case False
  then have "\<bar>r * 2\<bar> div 2 = - r" by simp
  then show ?thesis using False by (simp add: level_center_def level_height_def cdiv_def sgn_if)
qed

lemma chk_Some: "chk v = Some w \<longleftrightarrow> int32 v \<and> w = v"
  by (auto simp: chk_def)

lemma chk_None: "chk v = None \<longleftrightarrow> \<not> int32 v"
  by (auto simp: chk_def)

lemma sq_le_of_le: "0 \<le> a \<Longrightarrow> a \<le> (b::int) \<Longrightarrow> a * a \<le> b * b"
  by (simp add: mult_mono)

lemma sq_gt_of_gt: "0 \<le> r \<Longrightarrow> r < (a::int) \<Longrightarrow> r * r < a * a"
  by (simp add: mult_strict_mono')

lemma manhattan_inside:
  assumes "0 \<le> dx" "0 \<le> dy" "dx + dy \<le> (r::int)"
  shows "dx * dx + dy * dy \<le> r * r"
proof -
  have "dx * dx + dy * dy \<le> (dx + dy) * (dx + dy)"
    using assms by (simp add: algebra_simps)
  also have "\<dots> \<le> r * r"
    using assms by (intro sq_le_of_le) auto
  finally show ?thesis .
qed

lemma euclid_alt:
  "euclid_inside r p \<longleftrightarrow>
     \<bar>fst p - r\<bar> * \<bar>fst p - r\<bar> + \<bar>snd p - r\<bar> * \<bar>snd p - r\<bar> \<le> r * r"
  by (simp add: euclid_inside_def level_center_eq power2_eq_square)

lemma outside_x:
  assumes "0 \<le> r" "r < \<bar>a\<bar>"
  shows "\<not> \<bar>a\<bar> * \<bar>a\<bar> + \<bar>b\<bar> * \<bar>b\<bar> \<le> (r::int) * r"
proof -
  have "r * r < \<bar>a\<bar> * \<bar>a\<bar>" using assms by (intro sq_gt_of_gt) auto
  moreover have "0 \<le> \<bar>b\<bar> * \<bar>b\<bar>" by simp
  ultimately show ?thesis by linarith
qed

lemma inCircle_sound:
  assumes "0 \<le> r" "inCircle r p = Some b"
  shows "b = euclid_inside r p"
proof -
  define dx where "dx = \<bar>fst p - r\<bar>"
  define dy where "dy = \<bar>snd p - r\<bar>"
  have nn: "0 \<le> dx" "0 \<le> dy" by (simp_all add: dx_def dy_def)
  have E: "euclid_inside r p \<longleftrightarrow> dx * dx + dy * dy \<le> r * r"
    by (simp add: euclid_alt dx_def dy_def)
  show ?thesis
  proof (cases "dx > r")
    case True
    have "\<not> euclid_inside r p"
      unfolding euclid_alt using outside_x [OF assms(1), of "fst p - r" "snd p - r"] True
      by (simp add: dx_def)
    moreover have "b = False"
      using assms(2) True
      by (auto simp: inCircle_def level_center_eq chk_Some dx_def split: option.splits if_splits)
    ultimately show ?thesis by simp
  next
    case xin: False
    show ?thesis
    proof (cases "dy > r")
      case True
      have "\<not> euclid_inside r p"
        unfolding euclid_alt using outside_x [OF assms(1), of "snd p - r" "fst p - r"] True
        by (simp add: dy_def add.commute)
      moreover have "b = False"
        using assms(2) True xin
        by (auto simp: inCircle_def level_center_eq chk_Some dx_def dy_def
            split: option.splits if_splits)
      ultimately show ?thesis by simp
    next
      case yin: False
      show ?thesis
      proof (cases "dx + dy \<le> r")
        case True
        have "euclid_inside r p"
          unfolding E using manhattan_inside [OF nn True] .
        moreover have "b = True"
          using assms(2) True xin yin
          by (auto simp: inCircle_def level_center_eq chk_Some dx_def dy_def
              split: option.splits if_splits)
        ultimately show ?thesis by simp
      next
        case False
        have "b = (dx * dx + dy * dy \<le> r * r)"
          using assms(2) False xin yin
          by (auto simp: inCircle_def level_center_eq chk_Some dx_def dy_def
              split: option.splits if_splits)
        then show ?thesis by (simp add: E)
      qed
    qed
  qed
qed

lemma int32_small: "\<bar>v\<bar> < 2 ^ 31 \<Longrightarrow> int32 v"
  by (auto simp: int32_def)

lemma inCircle_defined:
  assumes "0 \<le> r" "r < 2 ^ 15" "\<bar>fst p - level_center r\<bar> < 2 ^ 31"
    "\<bar>snd p - level_center r\<bar> < 2 ^ 31"
  shows "inCircle r p \<noteq> None"
proof -
  define dx where "dx = \<bar>fst p - r\<bar>"
  define dy where "dy = \<bar>snd p - r\<bar>"
  have nn: "0 \<le> dx" "0 \<le> dy" by (simp_all add: dx_def dy_def)
  have a: "int32 (fst p - r)" "int32 dx" "int32 (snd p - r)" "int32 dy"
    using assms by (auto simp: int32_def level_center_eq dx_def dy_def)
  have sq: "dx * dx \<le> 32767 * 32767" if "0 \<le> dx" "dx \<le> r" for dx :: int
    using that assms(2) sq_le_of_le [of dx 32767] by simp
  have sqr: "r * r \<le> 32767 * 32767"
    using sq [of r] assms(1) by simp
  have b: "dx \<le> r \<Longrightarrow> dy \<le> r \<Longrightarrow>
      int32 (dx + dy) \<and> int32 (dx * dx) \<and> int32 (dy * dy) \<and> int32 (dx * dx + dy * dy)
      \<and> int32 (r * r)"
  proof -
    assume le: "dx \<le> r" "dy \<le> r"
    have p: "- 2147483648 \<le> dx * dx" "- 2147483648 \<le> dy * dy" "- 2147483648 \<le> r * r"
      "- 2147483648 \<le> dx * dx + dy * dy"
      using zero_le_square [of dx] zero_le_square [of dy] zero_le_square [of r] by linarith+
    have q: "dx * dx \<le> 1073676289" "dy * dy \<le> 1073676289" "r * r \<le> 1073676289"
      using sq [OF nn(1) le(1)] sq [OF nn(2) le(2)] sqr by simp_all
    have l: "r < 32768" using assms(2) by simp
    show ?thesis
      using q l nn le p by (simp add: int32_def)
  qed
  show ?thesis
    using a b
    by (auto simp: inCircle_def level_center_eq chk_def dx_def dy_def Let_def
        split: option.splits if_splits)
qed

text \<open>
  C9. For a radius that is not negative, \<^verbatim>\<open>RecordLevel::inCircle\<close> answers what the plain
  Euclidean test answers, wherever its \<^verbatim>\<open>int\<close> arithmetic is defined; and it is defined for
  every point whose offsets from the center fit an \<^verbatim>\<open>int\<close> with their absolute value, for
  radii below \<open>2^15\<close>. The bounding box and the Manhattan test never change the result.
\<close>

theorem inCircle_euclid:
  assumes "0 \<le> r"
  shows "(inCircle r p = Some b \<longrightarrow> b = euclid_inside r p)
    \<and> (r < 2 ^ 15 \<and> \<bar>fst p - level_center r\<bar> < 2 ^ 31 \<and> \<bar>snd p - level_center r\<bar> < 2 ^ 31
        \<longrightarrow> inCircle r p = Some (euclid_inside r p))"
proof -
  have 1: "inCircle r p = Some b \<longrightarrow> b = euclid_inside r p"
    using inCircle_sound [OF assms] by blast
  have 2: "inCircle r p = Some (euclid_inside r p)"
    if h: "r < 2 ^ 15 \<and> \<bar>fst p - level_center r\<bar> < 2 ^ 31 \<and> \<bar>snd p - level_center r\<bar> < 2 ^ 31"
  proof -
    obtain c where c: "inCircle r p = Some c"
      using inCircle_defined [OF assms, of p] h by auto
    then show ?thesis using inCircle_sound [OF assms c] by simp
  qed
  show ?thesis using 1 2 by blast
qed

theorem inCircle_euclid_witness:
  "(0::int) \<le> 30 \<and> inCircle 30 (10, 12) = Some True \<and> euclid_inside 30 (10, 12)
   \<and> inCircle 30 (8, 8) = Some False \<and> \<not> euclid_inside 30 (8, 8)"
proof -
  have a: "inCircle 30 (10, 12) = Some True" "inCircle 30 (8, 8) = Some False"
    by code_simp+
  show ?thesis
    using a inCircle_euclid [of 30 "(10, 12)" True] inCircle_euclid [of 30 "(8, 8)" False]
    by simp
qed

subsection \<open>The geometry never changes\<close>

lemma lock_height_assign [simp]: "lock_height (fst (assign_progress l v)) = lock_height l"
  by (simp add: assign_progress_def Let_def)

lemma lock_height_request [simp]: "lock_height (fst (requestPaintProgress l v)) = lock_height l"
  by (simp add: requestPaintProgress_def)

lemma lock_height_hide [simp]: "lock_height (fst (lock_hide l)) = lock_height l"
  by (simp add: lock_hide_def)

lemma lock_height_show [simp]: "lock_height (lock_show l) = lock_height l"
  by (simp add: lock_show_def)

lemma geometry_emit [simp]: "geometry (emit s os) = geometry s"
  by (simp add: geometry_def emit_def)

lemma geometry_set_recording [simp]: "geometry (set_recording s v) = geometry s"
  by (simp add: set_recording_def) (simp add: geometry_def emit_def)

lemma geometry_set_inField [simp]: "geometry (set_inField s v) = geometry s"
  by (simp add: geometry_def set_inField_def)

lemma geometry_set_lockShowing [simp]: "geometry (set_lockShowing s v) = geometry s"
  by (simp add: geometry_def set_lockShowing_def Let_def emit_def)

lemma geometry_stop [simp]: "geometry (stop s send) = geometry s"
proof -
  have "geometry (stop s send) = geometry (set_lockShowing s False)"
    by (simp add: geometry_def stop_def visibilityAnimate_def)
  then show ?thesis by simp
qed

lemma geometry_stopRecording [simp]: "geometry (stopRecording s send) = geometry s"
  by (simp add: stopRecording_def) (simp add: geometry_def emit_def)

lemma geometry_stopRecordingResult [simp]:
  "geometry (stopRecordingResult freq s b w n) = geometry s"
  by (simp add: stopRecordingResult_def)

lemma geometry_lifetime [simp]: "geometry (recordingLifetime_destroy s) = geometry s"
  by (simp add: geometry_def recordingLifetime_destroy_def)

lemma geometry_disappearance:
  "disappearanceCallback s send = Some s' \<Longrightarrow> geometry s' = geometry s"
proof -
  assume a: "disappearanceCallback s send = Some s'"
  have g: "geometry (t\<lparr>recordingSamples := 0\<rparr>) = geometry t"
    "geometry (t\<lparr>isHidden := True\<rparr>) = geometry t" for t
    by (simp_all add: geometry_def)
  show ?thesis
    using a by (auto simp: disappearanceCallback_def Let_def g split: if_splits)
qed

lemma geometry_appearance:
  "appearanceCallback s av = Some s' \<Longrightarrow> geometry s' = geometry s"
proof -
  assume a: "appearanceCallback s av = Some s'"
  have g: "geometry (t\<lparr>captureUpdates := Some False\<rparr>) = geometry t" for t
    by (simp add: geometry_def)
  show ?thesis
    using a by (auto simp: appearanceCallback_def Let_def g split: if_splits)
qed

lemma geometry_showAnimationFinished:
  "showAnimationFinished s av = Some s' \<Longrightarrow> geometry s' = geometry s"
proof -
  assume a: "showAnimationFinished s av = Some s'"
  have g: "geometry (s\<lparr>showAnimation := None\<rparr>) = geometry s"
    by (simp add: geometry_def)
  show ?thesis
    using a geometry_appearance [of "s\<lparr>showAnimation := None\<rparr>" av s']
      geometry_disappearance [of "s\<lparr>showAnimation := None\<rparr>" _ s'] g
    by (auto simp: showAnimationFinished_def Let_def split: option.splits callback.splits)
qed

lemma geometry_startRecording [simp]: "geometry (startRecording s) = geometry s"
  by (simp add: geometry_def startRecording_def Let_def visibilityAnimate_def set_inField_def)

lemma geometry_recordUpdated [simp]: "geometry (recordUpdated freq s l n) = geometry s"
proof -
  have g: "geometry (s\<lparr>recordingSamples := n\<rparr>) = geometry s"
    by (simp add: geometry_def)
  show ?thesis by (simp add: recordUpdated_def Let_def g)
qed

lemma geometry_captureUpdated [simp]: "geometry (captureUpdated freq s l n) = geometry s"
proof -
  have g: "geometry (s\<lparr>captureUpdates := Some True\<rparr>) = geometry s"
    by (simp add: geometry_def)
  show ?thesis by (simp add: captureUpdated_def Let_def g split: option.splits)
qed

lemma geometry_captureError [simp]: "geometry (captureError s) = geometry s"
proof -
  have "geometry (s\<lparr>captureUpdates := None\<rparr>) = geometry s"
    by (simp add: geometry_def)
  then show ?thesis by (simp add: captureError_def)
qed

lemma geometry_locksHandler [simp]: "geometry (locksHandler s) = geometry s"
  by (simp add: geometry_def locksHandler_def installClickOutsideFilter_def set_inField_def)

lemma geometry_with_lock:
  "lock_height (fst r) = lock_height (lock s) \<Longrightarrow> geometry (with_lock s r) = geometry s"
  by (simp add: with_lock_def Let_def) (simp add: geometry_def)

lemma geometry_compute [simp]: "geometry (computeAndSetLockProgress s p) = geometry s"
  by (simp add: computeAndSetLockProgress_def geometry_with_lock)

lemma geometry_showLockAnimationFinished [simp]:
  "geometry (showLockAnimationFinished s p) = geometry s"
proof -
  have g: "geometry (s\<lparr>showLockAnimation := None\<rparr>) = geometry s"
    by (simp add: geometry_def)
  have h: "geometry (with_lock (s\<lparr>showLockAnimation := None\<rparr>)
      (lock_hide (lock (s\<lparr>showLockAnimation := None\<rparr>)))) = geometry s"
    using geometry_with_lock [of "lock_hide (lock (s\<lparr>showLockAnimation := None\<rparr>))"
        "s\<lparr>showLockAnimation := None\<rparr>"] g
    by simp
  show ?thesis
    using h by (simp add: showLockAnimationFinished_def Let_def g split: option.splits)
qed

lemma geometry_sendEvent: "sendEvent s e = Some s' \<Longrightarrow> geometry s' = geometry s"
  by (auto simp: sendEvent_def Let_def split: if_splits send_event.splits option.splits)

lemma geometry_levelEvent: "levelEvent s e = Some s' \<Longrightarrow> geometry s' = geometry s"
  by (auto simp: levelEvent_def split: if_splits level_event.splits)

lemma geometry_showBox [simp]: "geometry (showBox s) = geometry s"
  by (simp add: showBox_def Let_def geometry_def emit_def split: option.splits)

lemma geometry_computeResult [simp]: "geometry (snd (computeResult s b e esc)) = geometry s"
  by (simp add: computeResult_def Let_def split: qevent.splits)

lemma geometry_filterCallback [simp]: "geometry (snd (filterCallback s e esc)) = geometry s"
proof (cases "clickOutsideFilter s")
  case None
  then show ?thesis by (simp add: filterCallback_def)
next
  case (Some b)
  obtain t s1 where c: "computeResult s b e esc = (t, s1)"
    by (cases "computeResult s b e esc")
  have "geometry s1 = geometry s"
    using geometry_computeResult [of s b e esc] c by simp
  then show ?thesis
    using Some c by (cases t) (simp_all add: filterCallback_def)
qed

lemma geometry_boxDestroyed [simp]: "geometry (boxDestroyed s i) = geometry s"
  by (simp add: geometry_def boxDestroyed_def)

lemma geometry_sure: "sure s i = Some s' \<Longrightarrow> geometry s' = geometry s"
  by (auto simp: sure_def split: if_splits)

lemma geometry_captureResult [simp]: "geometry (captureResult freq s b w n) = geometry s"
proof -
  have g: "geometry (s\<lparr>resultCallbacks := k\<rparr>) = geometry s" for k
    by (simp add: geometry_def)
  show ?thesis by (simp add: captureResult_def Let_def g)
qed

lemma geometry_destructor [simp]: "geometry (destructor s) = geometry s"
proof -
  have g: "geometry (t\<lparr>alive := False, showAnimation := None, showLockAnimation := None\<rparr>)
      = geometry t" for t
    by (simp add: geometry_def)
  show ?thesis by (simp add: destructor_def Let_def g)
qed

lemma geometry_finishAnimating [simp]: "geometry (finishAnimating s) = geometry s"
  by (simp add: geometry_def finishAnimating_def)

lemma geometry_typeRecord [simp]: "geometry (s\<lparr>typeRecord := b\<rparr>) = geometry s"
  by (simp add: geometry_def)

lemma geometry_handle: "handle freq s e = Some s' \<Longrightarrow> geometry s' = geometry s"
  by (cases e)
    (auto dest: geometry_showAnimationFinished geometry_sendEvent geometry_levelEvent)

lemma geometry_step: "step freq s e = Some s' \<Longrightarrow> geometry s' = geometry s"
  by (cases e)
    (auto dest: geometry_handle geometry_sure split: if_splits simp del: handle.simps)

lemma geometry_run: "run freq s es = Some s' \<Longrightarrow> geometry s' = geometry s"
proof (induction es arbitrary: s)
  case Nil
  then show ?case by simp
next
  case (Cons e es)
  then show ?case
    by (auto split: option.splits dest: geometry_step)
qed

lemma lockProgress_geometry:
  "geometry s' = geometry s \<Longrightarrow> snd p' = snd p \<Longrightarrow> lockProgress s' p' = lockProgress s p"
  by (simp add: geometry_def lockProgress_def mapFromGlobal_def)

lemma clamp_unit:
  "\<exists>r. clamp (Finite x) (Finite 0) (Finite 1) = Finite r \<and> 0 \<le> r \<and> r \<le> 1"
  by (simp add: clamp_def)

text \<open>
  C3. With a lock widget of positive height, the progress that
  \<^verbatim>\<open>computeAndSetLockProgress\<close> hands to the lock is a finite number between 0 and 1: the
  quotient of the local vertical offset and the negated lock height, clamped. It depends on
  the vertical position alone: after any events, earlier pointer moves included, the same
  vertical position gives the same progress.
\<close>

theorem lockProgress_clamped:
  assumes "0 < lock_height (lock s)"
  shows "(\<exists>r. lockProgress s p = Finite r \<and> 0 \<le> r \<and> r \<le> 1)
    \<and> lockProgress s p =
        clamp (f64_div (f64_of_int (snd p - snd (barPos s)))
                 (f64_of_int (0 - lock_height (lock s)))) (Finite 0) (Finite 1)
    \<and> computeAndSetLockProgress s p =
        with_lock s (requestPaintProgress (lock s) (lockProgress s p))
    \<and> (\<forall>es s' p'. run freq s es = Some s' \<and> snd p' = snd p \<longrightarrow>
          lockProgress s' p' = lockProgress s p)"
proof -
  have f: "lockProgress s p =
      clamp (f64_div (f64_of_int (snd p - snd (barPos s)))
               (f64_of_int (0 - lock_height (lock s)))) (Finite 0) (Finite 1)"
    by (simp add: lockProgress_def mapFromGlobal_def Let_def)
  have "\<exists>x. f64_div (f64_of_int (snd p - snd (barPos s)))
      (f64_of_int (0 - lock_height (lock s))) = Finite x"
    using assms by (simp add: f64_of_int_def)
  then have r: "\<exists>r. lockProgress s p = Finite r \<and> 0 \<le> r \<and> r \<le> 1"
    unfolding f using clamp_unit by auto
  have h: "\<forall>es s' p'. run freq s es = Some s' \<and> snd p' = snd p \<longrightarrow>
      lockProgress s' p' = lockProgress s p"
    using geometry_run lockProgress_geometry by blast
  show ?thesis
    using f r h by (simp add: computeAndSetLockProgress_def)
qed

theorem lockProgress_clamped_witness:
  "0 < lock_height (lock example_recording)
   \<and> lockProgress example_recording (380, 460) = Finite (1 / 2)
   \<and> (\<exists>r. lockProgress example_recording (380, 460) = Finite r \<and> 0 \<le> r \<and> r \<le> 1)
   \<and> run 48000 example_recording [SendEvent (MouseMove (380, 480))] = Some example_outside
   \<and> lockProgress example_outside (0, 460) = lockProgress example_recording (380, 460)"
proof -
  have a: "0 < lock_height (lock example_recording)"
    by code_simp
  have b: "lockProgress example_recording (380, 460) = Finite (1 / 2)"
    by code_simp
  have c: "run 48000 example_recording [SendEvent (MouseMove (380, 480))] = Some example_outside"
    by code_simp
  have d: "snd (0 :: int, 460 :: int) = snd (380 :: int, 460 :: int)"
    by simp
  show ?thesis
    using a b c d lockProgress_clamped [OF a, of "(380, 460)" 48000]
    by blast
qed

subsection \<open>Stopping a session\<close>

lemma stop_stop: "stop (stop s send1) send2 = stop s send2"
  by (simp add: stop_def visibilityAnimate_def set_lockShowing_def Let_def emit_def)

lemma showAnimation_stop [simp]:
  "showAnimation (stop s send) = Some (False, DisappearanceCallback send)"
  by (simp add: stop_def visibilityAnimate_def)

lemma stop_finished:
  "\<exists>s'. showAnimationFinished (stop s send) a = Some s'
     \<and> emitted s' = emitted s
         @ (if lockShowing s then [LockShowStart False] else [])
         @ (if recording s then [RecordingStateChange False] else [])
         @ [if send then CaptureStopResult else CaptureStop, SendActionUpdate (- 1),
            SetInnerFocus]
     \<and> resultCallbacks s' = resultCallbacks s + (if send then 1 else 0)
     \<and> alive s' = alive s
     \<and> \<not> recording s' \<and> \<not> inField s' \<and> \<not> lockShowing s' \<and> isHidden s'
     \<and> recordingSamples s' = 0 \<and> showAnimation s' = None
     \<and> \<not> sendEvents s' \<and> captureUpdates s' = None \<and> clickOutsideFilter s' = None
     \<and> \<not> levelEvents s'"
  by (simp add: showAnimationFinished_def stop_def visibilityAnimate_def set_lockShowing_def
      disappearanceCallback_def set_recording_def stopRecording_def set_inField_def
      recordingLifetime_destroy_def emit_def Let_def)

lemma alive_stop [simp]: "alive (stop s send) = alive s"
  by (simp add: stop_def visibilityAnimate_def set_lockShowing_def Let_def emit_def)

text \<open>
  C1, as amended. For a positive sample rate, an update whose sample count is negative or
  at least \<open>kMaxSamples\<close> makes \<^verbatim>\<open>recordUpdated\<close> call \<^verbatim>\<open>stop\<close>. At or over the maximum the
  stop sends exactly when \<^verbatim>\<open>_inField\<close> holds; for a negative count it never sends. When the
  hide animation ends, the capture is stopped with a result callback in the first case
  only.
\<close>

theorem recordUpdated_forced_stop:
  assumes "0 < freq" "samples < 0 \<or> kMaxSamples freq \<le> samples"
  shows "recordUpdated freq s level samples =
      emit (stop (s\<lparr>recordingSamples := samples\<rparr>) (0 \<le> samples \<and> inField s))
        [SendActionUpdate 0]
    \<and> showAnimation (recordUpdated freq s level samples) =
        Some (False, DisappearanceCallback (0 \<le> samples \<and> inField s))
    \<and> (\<exists>s'. showAnimationFinished (recordUpdated freq s level samples) a = Some s'
          \<and> emitted s' = emitted s
              @ (if lockShowing s then [LockShowStart False] else [])
              @ [SendActionUpdate 0]
              @ (if recording s then [RecordingStateChange False] else [])
              @ [if 0 \<le> samples \<and> inField s then CaptureStopResult else CaptureStop,
                 SendActionUpdate (- 1), SetInnerFocus])"
proof -
  have k: "0 < kMaxSamples freq"
    using assms(1) by (simp add: kMaxSamples_def kAudioVoiceMaxLength_def)
  have c: "(0 < samples \<and> inField s) = (0 \<le> samples \<and> inField s)"
    using assms(2) k by auto
  have r: "recordUpdated freq s level samples =
      emit (stop (s\<lparr>recordingSamples := samples\<rparr>) (0 \<le> samples \<and> inField s))
        [SendActionUpdate 0]"
    using assms(2) c by (simp add: recordUpdated_def Let_def)
  show ?thesis
    unfolding r
    by (simp add: showAnimationFinished_def stop_def visibilityAnimate_def
        set_lockShowing_def disappearanceCallback_def set_recording_def stopRecording_def
        set_inField_def recordingLifetime_destroy_def emit_def Let_def)
qed

theorem recordUpdated_forced_stop_witness:
  "(0::int) < 48000 \<and> kMaxSamples 48000 \<le> 288000000 \<and> inField example_recording
   \<and> showAnimation (recordUpdated 48000 example_recording 5 288000000) =
       Some (False, DisappearanceCallback True)
   \<and> \<not> inField example_outside
   \<and> showAnimation (recordUpdated 48000 example_outside 5 288000000) =
       Some (False, DisappearanceCallback False)
   \<and> showAnimation (recordUpdated 48000 example_recording 5 (- 7)) =
       Some (False, DisappearanceCallback False)"
proof -
  have a: "(0::int) < 48000" by simp
  have b: "kMaxSamples 48000 \<le> 288000000"
    by (simp add: kMaxSamples_def kAudioVoiceMaxLength_def)
  have c: "inField example_recording" "\<not> inField example_outside"
    by code_simp+
  show ?thesis
    using a b c
      recordUpdated_forced_stop [OF a, of 288000000 example_recording 5 True]
      recordUpdated_forced_stop [OF a, of 288000000 example_outside 5 True]
      recordUpdated_forced_stop [OF a, of "- 7" example_recording 5 True]
    by auto
qed

text \<open>
  C1 as stated fails for a negative sample count: the pointer is inside the field, and the
  forced stop does not send.
\<close>

theorem recordUpdated_negative_counterexample:
  "((- 1 :: int) < 0 \<or> kMaxSamples 48000 \<le> - 1) \<and> inField example_recording
   \<and> showAnimation (recordUpdated 48000 example_recording 5 (- 1)) \<noteq>
       Some (False, DisappearanceCallback (inField example_recording))
   \<and> map_option emitted
        (run 48000 example_recording [CaptureUpdated 5 (- 1), ShowAnimationFinished True]) =
       Some [RecordingStateChange True, SetInnerFocus, CaptureStart, LockShowStart True,
             LockShowStart False, SendActionUpdate 0, RecordingStateChange False,
             CaptureStop, SendActionUpdate (- 1), SetInnerFocus]"
  by code_simp

text \<open>
  Every event but the last frame of the show or hide animation leaves the recording state
  as it is and hands no result callback to the capture.
\<close>

lemma quietI:
  "recording s' = recording s \<Longrightarrow> resultCallbacks s' \<le> resultCallbacks s \<Longrightarrow>
   emitted s' = emitted s @ xs \<Longrightarrow> CaptureStopResult \<notin> set xs \<Longrightarrow> quiet s s'"
  by (simp add: quiet_def)

lemma quietD:
  "quiet s s' \<Longrightarrow> recording s' = recording s \<and> resultCallbacks s' \<le> resultCallbacks s
     \<and> (\<exists>xs. emitted s' = emitted s @ xs \<and> CaptureStopResult \<notin> set xs)"
proof -
  assume q: "quiet s s'"
  have t: "take (length (emitted s)) (emitted s') = emitted s"
    using q by (simp add: quiet_def)
  have "emitted s' = emitted s @ drop (length (emitted s)) (emitted s')"
    using append_take_drop_id [of "length (emitted s)" "emitted s'"] unfolding t by simp
  then show ?thesis
    using q unfolding quiet_def by blast
qed

lemma quiet_refl [simp]: "quiet s s"
  by (rule quietI [where xs = "[]"]) simp_all

lemma quiet_trans: "quiet s t \<Longrightarrow> quiet t u \<Longrightarrow> quiet s u"
proof -
  assume a: "quiet s t" and b: "quiet t u"
  obtain xs where xs: "emitted t = emitted s @ xs" "CaptureStopResult \<notin> set xs"
    using quietD [OF a] by blast
  obtain ys where ys: "emitted u = emitted t @ ys" "CaptureStopResult \<notin> set ys"
    using quietD [OF b] by blast
  show ?thesis
    using quietD [OF a] quietD [OF b] xs ys
    by (intro quietI [where xs = "xs @ ys"]) auto
qed

lemma quiet_stop [simp]: "quiet s (stop s send)"
  by (rule quietI [where xs = "if lockShowing s then [LockShowStart False] else []"])
    (simp_all add: stop_def visibilityAnimate_def set_lockShowing_def Let_def emit_def)

lemma quiet_startRecording: "quiet s (startRecording s)"
  by (rule quietI [where xs = "[]"])
    (simp_all add: startRecording_def Let_def visibilityAnimate_def set_inField_def)

lemma quiet_finishAnimating: "quiet s (finishAnimating s)"
  by (rule quietI [where xs = "[]"]) (simp_all add: finishAnimating_def)

lemma quiet_with_lock: "quiet s (with_lock s r)"
  by (rule quietI [where xs = "[]"])
    (simp_all add: with_lock_def Let_def locksHandler_def installClickOutsideFilter_def
      set_inField_def)

lemma quiet_compute: "quiet s (computeAndSetLockProgress s p)"
  by (simp add: computeAndSetLockProgress_def quiet_with_lock)

lemma quiet_showLockAnimationFinished: "quiet s (showLockAnimationFinished s p)"
proof -
  have a: "quiet s (s\<lparr>showLockAnimation := None\<rparr>)"
    by (rule quietI [where xs = "[]"]) simp_all
  have b: "quiet (s\<lparr>showLockAnimation := None\<rparr>) (with_lock (s\<lparr>showLockAnimation := None\<rparr>) r)"
    for r
    by (rule quiet_with_lock)
  show ?thesis
    using quiet_trans [OF a b]
    by (simp add: showLockAnimationFinished_def Let_def computeAndSetLockProgress_def
        split: option.splits)
qed

lemma quiet_set_lockShowing: "quiet s (set_lockShowing s v)"
  by (rule quietI [where xs = "if lockShowing s = v then [] else [LockShowStart v]"])
    (simp_all add: set_lockShowing_def Let_def emit_def)

lemma quiet_recordUpdated: "quiet s (recordUpdated freq s l n)"
proof -
  have a: "quiet s (s\<lparr>recordingSamples := n\<rparr>)"
    by (rule quietI [where xs = "[]"]) simp_all
  have b: "quiet t (emit t [SendActionUpdate 0])" for t
    by (rule quietI [where xs = "[SendActionUpdate 0]"]) (simp_all add: emit_def)
  have c: "quiet (s\<lparr>recordingSamples := n\<rparr>) (stop (s\<lparr>recordingSamples := n\<rparr>) x)" for x
    by simp
  show ?thesis
    using quiet_trans [OF a b] quiet_trans [OF quiet_trans [OF a c] b]
    by (simp add: recordUpdated_def Let_def)
qed

lemma quiet_captureUpdated: "quiet s (captureUpdated freq s l n)"
proof -
  have a: "quiet s (s\<lparr>captureUpdates := Some True\<rparr>)"
    by (rule quietI [where xs = "[]"]) simp_all
  have b: "quiet s (set_lockShowing (s\<lparr>captureUpdates := Some True\<rparr>) True)"
    using quiet_trans [OF a quiet_set_lockShowing] .
  show ?thesis
    using quiet_recordUpdated [of s freq l n]
      quiet_trans [OF b quiet_recordUpdated, of freq l n]
    by (simp add: captureUpdated_def Let_def split: option.splits)
qed

lemma quiet_captureError: "quiet s (captureError s)"
proof -
  have "quiet s (s\<lparr>captureUpdates := None\<rparr>)"
    by (rule quietI [where xs = "[]"]) simp_all
  then have "quiet s (stop (s\<lparr>captureUpdates := None\<rparr>) False)"
    using quiet_stop by (rule quiet_trans)
  then show ?thesis by (simp add: captureError_def)
qed

lemma quiet_set_inField: "quiet s (set_inField s v)"
  by (rule quietI [where xs = "[]"]) (simp_all add: set_inField_def)

lemma quiet_sendEvent: "sendEvent s e = Some s' \<Longrightarrow> quiet s s'"
  using quiet_trans [OF quiet_set_inField quiet_compute]
  by (auto simp: sendEvent_def Let_def quiet_set_inField
      split: if_splits send_event.splits option.splits)

lemma quiet_levelEvent: "levelEvent s e = Some s' \<Longrightarrow> quiet s s'"
  by (auto simp: levelEvent_def quiet_set_inField split: if_splits level_event.splits)

lemma quiet_showBox: "quiet s (showBox s)"
  by (rule quietI [where xs = "case clickOutsideFilter s of Some None \<Rightarrow>
        [ShowConfirmBox (boxCounter s)] | _ \<Rightarrow> []"])
    (simp_all add: showBox_def Let_def emit_def split: option.splits)

lemma quiet_computeResult: "quiet s (snd (computeResult s b e esc))"
  by (simp add: computeResult_def Let_def split: qevent.splits)

lemma quiet_filterCallback: "quiet s (snd (filterCallback s e esc))"
proof (cases "clickOutsideFilter s")
  case None
  then show ?thesis by (simp add: filterCallback_def)
next
  case (Some b)
  obtain t s1 where c: "computeResult s b e esc = (t, s1)"
    by (cases "computeResult s b e esc")
  have q: "quiet s s1"
    using quiet_computeResult [of s b e esc] c by simp
  show ?thesis
    using Some c q quiet_trans [OF q quiet_showBox]
    by (cases t) (simp_all add: filterCallback_def)
qed

lemma quiet_boxDestroyed: "quiet s (boxDestroyed s i)"
  by (rule quietI [where xs = "[]"]) (simp_all add: boxDestroyed_def)

lemma quiet_sure: "sure s i = Some s' \<Longrightarrow> quiet s s'"
  using quiet_trans [OF quiet_stop quiet_boxDestroyed]
  by (auto simp: sure_def split: if_splits)

lemma quiet_captureResult: "quiet s (captureResult freq s b w n)"
  by (rule quietI [where xs = "if resultCallbacks s = 0 \<or> \<not> alive s \<or> b = [] then []
        else [ActivateWindow, SendVoiceRequest b w (Duration freq n)]"])
    (simp_all add: captureResult_def stopRecordingResult_def Let_def emit_def)

lemma quiet_destructor: "quiet s (destructor s)"
  by (rule quietI [where xs = "if recording s then [CaptureStop] else []"])
    (simp_all add: destructor_def stopRecording_def recordingLifetime_destroy_def emit_def)

lemma quiet_handle:
  assumes "handle freq s e = Some s'" "\<forall>a. e \<noteq> ShowAnimationFinished a"
  shows "quiet s s'"
proof (cases e)
  case (SetTypeRecord b)
  have "quiet s (s\<lparr>typeRecord := b\<rparr>)"
    by (rule quietI [where xs = "[]"]) simp_all
  then show ?thesis using assms SetTypeRecord by auto
qed (use assms quiet_startRecording quiet_finishAnimating quiet_showLockAnimationFinished
    quiet_captureUpdated quiet_captureError quiet_sendEvent quiet_levelEvent
    quiet_filterCallback quiet_destructor in auto)

lemma quiet_step:
  assumes "step freq s e = Some s'" "\<forall>a. e \<noteq> ShowAnimationFinished a"
  shows "quiet s s'"
proof (cases e)
  case (BoxSure i)
  then show ?thesis using assms quiet_sure [of s i s'] by simp
next
  case (BoxDestroyed i)
  then show ?thesis using assms quiet_boxDestroyed [of s i] by auto
next
  case (CaptureResult b w n)
  then show ?thesis using assms quiet_captureResult [of s freq b w n] by auto
qed (use assms quiet_handle [of freq s e s'] in \<open>auto split: if_splits simp del: handle.simps\<close>)

lemma quiet_run:
  "run freq s es = Some t \<Longrightarrow> \<forall>a. ShowAnimationFinished a \<notin> set es \<Longrightarrow> quiet s t"
proof (induction es arbitrary: s)
  case Nil
  then show ?case by simp
next
  case (Cons e es)
  from Cons.prems(1) obtain s1 where s1: "step freq s e = Some s1" "run freq s1 es = Some t"
    by (auto split: option.splits)
  have "quiet s s1"
    using quiet_step [OF s1(1)] Cons.prems(2) by auto
  moreover have "quiet s1 t"
    using Cons.IH [OF s1(2)] Cons.prems(2) by auto
  ultimately show ?case by (rule quiet_trans)
qed

lemma run_append:
  "run freq s (es @ es') = (case run freq s es of None \<Rightarrow> None | Some t \<Rightarrow> run freq t es')"
  by (induction es arbitrary: s) (auto split: option.splits)

lemma discard_finished:
  assumes "alive t" "showAnimation t = Some (False, DisappearanceCallback False)"
  shows "\<exists>s'. step freq t (ShowAnimationFinished a) = Some s'
     \<and> emitted s' = emitted t
         @ (if recording t then [RecordingStateChange False] else [])
         @ [CaptureStop, SendActionUpdate (- 1), SetInnerFocus]
     \<and> resultCallbacks s' = resultCallbacks t
     \<and> \<not> recording s' \<and> isHidden s' \<and> \<not> sendEvents s' \<and> captureUpdates s' = None"
  using assms
  by (simp add: showAnimationFinished_def disappearanceCallback_def set_recording_def
      stopRecording_def set_inField_def recordingLifetime_destroy_def emit_def Let_def)

text \<open>
  C4, as amended. The bar is not locked and \<^verbatim>\<open>_inField\<close> is false. A release of the pointer
  on the send button calls \<^verbatim>\<open>stop(false)\<close>. Whatever events arrive before the hide animation
  ends, if they leave that stop pending, the end of the animation discards the session: the
  capture is stopped without a result callback, none was handed over since the release, so
  that no voice can be sent, and the session is cleared. The change of the recording state to
  false is emitted exactly when the bar was recording at the release; before the capture has
  started there is no such change to report.
\<close>

theorem release_outside_discards:
  assumes "alive s" "sendEvents s" "typeRecord s" "\<not> isLocked (lock s)" "\<not> inField s"
    and "\<forall>a. ShowAnimationFinished a \<notin> set es"
    and "run freq s (SendEvent MouseButtonRelease # es) = Some t"
    and "alive t" "showAnimation t = Some (False, DisappearanceCallback False)"
  shows "step freq s (SendEvent MouseButtonRelease) = Some (stop s False)
    \<and> (\<exists>s'. run freq s (SendEvent MouseButtonRelease # es @ [ShowAnimationFinished a]) = Some s'
          \<and> emitted s' = emitted t
              @ (if recording s then [RecordingStateChange False] else [])
              @ [CaptureStop, SendActionUpdate (- 1), SetInnerFocus]
          \<and> take (length (emitted s)) (emitted s') = emitted s
          \<and> CaptureStopResult \<notin> set (drop (length (emitted s)) (emitted s'))
          \<and> resultCallbacks s' \<le> resultCallbacks s
          \<and> \<not> recording s' \<and> isHidden s' \<and> \<not> sendEvents s' \<and> captureUpdates s' = None)"
proof -
  have 1: "step freq s (SendEvent MouseButtonRelease) = Some (stop s False)"
    using assms(1-5) by (simp add: sendEvent_def)
  have n: "\<forall>a. ShowAnimationFinished a \<notin> set (SendEvent MouseButtonRelease # es)"
    using assms(6) by simp
  have q: "quiet s t"
    using quiet_run [OF assms(7) n] .
  obtain xs where xs: "recording t = recording s" "resultCallbacks t \<le> resultCallbacks s"
    "emitted t = emitted s @ xs" "CaptureStopResult \<notin> set xs"
    using quietD [OF q] by blast
  obtain s' where s': "step freq t (ShowAnimationFinished a) = Some s'"
    "emitted s' = emitted t
         @ (if recording t then [RecordingStateChange False] else [])
         @ [CaptureStop, SendActionUpdate (- 1), SetInnerFocus]"
    "resultCallbacks s' = resultCallbacks t"
    "\<not> recording s'" "isHidden s'" "\<not> sendEvents s'" "captureUpdates s' = None"
    using discard_finished [OF assms(8,9), of freq a] by blast
  have "run freq s ((SendEvent MouseButtonRelease # es) @ [ShowAnimationFinished a]) = Some s'"
    unfolding run_append using assms(7) s'(1) by simp
  then have r: "run freq s (SendEvent MouseButtonRelease # es @ [ShowAnimationFinished a])
      = Some s'"
    by simp
  have e: "emitted s' = emitted s @ (xs
      @ (if recording s then [RecordingStateChange False] else [])
      @ [CaptureStop, SendActionUpdate (- 1), SetInnerFocus])"
    using s'(2) xs(1,3) by simp
  have d: "take (length (emitted s)) (emitted s') = emitted s"
    "CaptureStopResult \<notin> set (drop (length (emitted s)) (emitted s'))"
    unfolding e using xs(4) by simp_all
  show ?thesis
    using 1 r s' xs(1,2) d by (auto simp del: run.simps)
qed

theorem release_outside_discards_witness:
  "alive example_outside \<and> sendEvents example_outside \<and> typeRecord example_outside
   \<and> \<not> isLocked (lock example_outside) \<and> \<not> inField example_outside
   \<and> run 48000 example_outside [SendEvent MouseButtonRelease, CaptureUpdated 5 200]
       = Some example_released
   \<and> alive example_released
   \<and> showAnimation example_released = Some (False, DisappearanceCallback False)
   \<and> recording example_outside
   \<and> (\<exists>s'. run 48000 example_outside
          [SendEvent MouseButtonRelease, CaptureUpdated 5 200, ShowAnimationFinished True]
          = Some s'
        \<and> emitted s' = emitted example_released
            @ [RecordingStateChange False, CaptureStop, SendActionUpdate (- 1), SetInnerFocus]
        \<and> \<not> recording s')"
proof -
  have a: "alive example_outside" "sendEvents example_outside" "typeRecord example_outside"
    "\<not> isLocked (lock example_outside)" "\<not> inField example_outside"
    by code_simp+
  have b: "\<forall>a. ShowAnimationFinished a \<notin> set [CaptureUpdated 5 200]"
    by simp
  have c: "run 48000 example_outside [SendEvent MouseButtonRelease, CaptureUpdated 5 200]
       = Some example_released"
    by code_simp
  have d: "alive example_released"
    "showAnimation example_released = Some (False, DisappearanceCallback False)"
    "recording example_outside"
    by code_simp+
  show ?thesis
    using a c d release_outside_discards [OF a b c d(1,2), of True]
    by (auto simp del: run.simps)
qed

text \<open>
  C4 as stated fails for a release before the show animation has ended: the bar is not yet
  recording, the release outside the field stops it, and no change of the recording state is
  emitted.
\<close>

theorem release_before_capture_counterexample:
  "run 48000 example_bar [StartRecording, SendEvent (MouseMove (380, 480))] = Some example_early
   \<and> alive example_early \<and> sendEvents example_early \<and> typeRecord example_early
   \<and> \<not> isLocked (lock example_early) \<and> \<not> inField example_early
   \<and> emitted example_early = []
   \<and> map_option emitted
        (run 48000 example_early [SendEvent MouseButtonRelease, ShowAnimationFinished True]) =
       Some [CaptureStop, SendActionUpdate (- 1), SetInnerFocus]
   \<and> RecordingStateChange False
       \<notin> set [CaptureStop, SendActionUpdate (- 1), SetInnerFocus]"
  by code_simp

text \<open>
  C5. After \<^verbatim>\<open>stop(true)\<close> and the hide animation the capture was stopped with a result
  callback. When the result arrives with an empty buffer nothing is emitted and only the
  pending callback is gone; a voice is emitted exactly for a buffer that is not empty.
\<close>

theorem empty_result_not_sent:
  assumes "alive s"
  shows "\<exists>s1. showAnimationFinished (stop s True) a = Some s1
    \<and> CaptureStopResult \<in> set (emitted s1)
    \<and> resultCallbacks s1 = resultCallbacks s + 1
    \<and> captureResult freq s1 [] waveform samples = s1\<lparr>resultCallbacks := resultCallbacks s\<rparr>
    \<and> emitted (captureResult freq s1 bytes waveform samples) = emitted s1
        @ (if bytes = [] then []
           else [ActivateWindow, SendVoiceRequest bytes waveform (Duration freq samples)])"
proof -
  obtain s1 where s1: "showAnimationFinished (stop s True) a = Some s1"
    "emitted s1 = emitted s
         @ (if lockShowing s then [LockShowStart False] else [])
         @ (if recording s then [RecordingStateChange False] else [])
         @ [if True then CaptureStopResult else CaptureStop, SendActionUpdate (- 1),
            SetInnerFocus]"
    "resultCallbacks s1 = resultCallbacks s + (if True then 1 else 0)"
    "alive s1 = alive s"
    using stop_finished [of s True a] by blast
  have "captureResult freq s1 [] waveform samples = s1\<lparr>resultCallbacks := resultCallbacks s\<rparr>"
    using s1(3,4) assms by (simp add: captureResult_def stopRecordingResult_def Let_def)
  moreover have "emitted (captureResult freq s1 bytes waveform samples) = emitted s1
        @ (if bytes = [] then []
           else [ActivateWindow, SendVoiceRequest bytes waveform (Duration freq samples)])"
    using s1(3,4) assms
    by (simp add: captureResult_def stopRecordingResult_def Let_def emit_def)
  ultimately show ?thesis
    using s1 by simp
qed

theorem empty_result_not_sent_witness:
  "alive example_locked
   \<and> (\<exists>s1. showAnimationFinished (stop example_locked True) True = Some s1
        \<and> emitted (captureResult 48000 s1 [] [] 96000) = emitted s1
        \<and> emitted (captureResult 48000 s1 [7, 9] [3] 96000) = emitted s1
            @ [ActivateWindow, SendVoiceRequest [7, 9] [3] (Duration 48000 96000)])"
proof -
  have a: "alive example_locked"
    by code_simp
  show ?thesis
    using a empty_result_not_sent [OF a, of True 48000 "[]" 96000 "[]"]
      empty_result_not_sent [OF a, of True 48000 "[3]" 96000 "[7, 9]"]
    by auto
qed

text \<open>
  C7. While the bar records, a second \<^verbatim>\<open>stop\<close> during the hide animation of the first
  leaves the state that one \<^verbatim>\<open>stop\<close> leaves, whatever the first one was told to do with
  the recording. The end of the animation then clears the session once: one change of the
  recording state to false, one stop of the capture, and further frames do nothing.
\<close>

theorem stop_idempotent:
  assumes "recording s"
  shows "stop (stop s send) send = stop s send
    \<and> stop (stop s other) send = stop s send
    \<and> (\<exists>s'. showAnimationFinished (stop (stop s send) send) a = Some s'
          \<and> showAnimationFinished (stop s send) a = Some s'
          \<and> emitted s' = emitted s
              @ (if lockShowing s then [LockShowStart False] else [])
              @ [RecordingStateChange False, if send then CaptureStopResult else CaptureStop,
                 SendActionUpdate (- 1), SetInnerFocus]
          \<and> \<not> recording s' \<and> \<not> inField s' \<and> recordingSamples s' = 0
          \<and> \<not> sendEvents s' \<and> captureUpdates s' = None \<and> clickOutsideFilter s' = None
          \<and> \<not> levelEvents s'
          \<and> showAnimationFinished s' a = Some s')"
proof -
  obtain s' where s': "showAnimationFinished (stop s send) a = Some s'"
    "emitted s' = emitted s
         @ (if lockShowing s then [LockShowStart False] else [])
         @ (if recording s then [RecordingStateChange False] else [])
         @ [if send then CaptureStopResult else CaptureStop, SendActionUpdate (- 1),
            SetInnerFocus]"
    "\<not> recording s'" "\<not> inField s'" "recordingSamples s' = 0" "showAnimation s' = None"
    "\<not> sendEvents s'" "captureUpdates s' = None" "clickOutsideFilter s' = None"
    "\<not> levelEvents s'"
    using stop_finished [of s send a] by blast
  have "showAnimationFinished s' a = Some s'"
    using s'(6) by (simp add: showAnimationFinished_def)
  then show ?thesis
    using s' assms by (simp add: stop_stop)
qed

theorem stop_idempotent_witness:
  "recording example_locked
   \<and> stop (stop example_locked True) True = stop example_locked True
   \<and> (\<exists>s'. showAnimationFinished (stop (stop example_locked True) True) True = Some s'
        \<and> showAnimationFinished (stop example_locked True) True = Some s'
        \<and> emitted s' = emitted example_locked
            @ [LockShowStart False, RecordingStateChange False, CaptureStopResult,
               SendActionUpdate (- 1), SetInnerFocus]
        \<and> \<not> recording s')"
proof -
  have a: "recording example_locked" "lockShowing example_locked"
    by code_simp+
  show ?thesis
    using a stop_idempotent [OF a(1), of True True True]
    by auto
qed

lemma dead_step:
  "\<not> alive s \<Longrightarrow> step freq s e = Some s' \<Longrightarrow> \<not> alive s' \<and> emitted s' = emitted s"
  by (cases e)
    (auto simp: sure_def boxDestroyed_def captureResult_def Let_def split: if_splits
      simp del: handle.simps)

lemma dead_run:
  "\<not> alive s \<Longrightarrow> run freq s es = Some s' \<Longrightarrow> \<not> alive s' \<and> emitted s' = emitted s"
proof (induction es arbitrary: s)
  case Nil
  then show ?case by simp
next
  case (Cons e es)
  from Cons.prems obtain s1 where s1: "step freq s e = Some s1" "run freq s1 es = Some s'"
    by (auto split: option.splits)
  have "\<not> alive s1 \<and> emitted s1 = emitted s"
    using dead_step [OF Cons.prems(1) s1(1)] .
  then show ?case
    using Cons.IH [of s1] s1(2) by simp
qed

text \<open>
  C10. The destructor of a recording bar stops the capture without a result callback, and
  nothing is emitted afterwards, whatever events arrive.
\<close>

theorem destructor_discards:
  assumes "recording s"
  shows "emitted (destructor s) = emitted s @ [CaptureStop]
    \<and> resultCallbacks (destructor s) = resultCallbacks s
    \<and> \<not> alive (destructor s)
    \<and> (\<forall>es s'. run freq (destructor s) es = Some s' \<longrightarrow> emitted s' = emitted s @ [CaptureStop])"
proof -
  have d: "emitted (destructor s) = emitted s @ [CaptureStop]"
    "resultCallbacks (destructor s) = resultCallbacks s" "\<not> alive (destructor s)"
    using assms
    by (simp_all add: destructor_def stopRecording_def recordingLifetime_destroy_def emit_def)
  show ?thesis
    using d dead_run [OF d(3)] by auto
qed

theorem destructor_discards_witness:
  "recording example_recording
   \<and> emitted (destructor example_recording) = emitted example_recording @ [CaptureStop]
   \<and> map_option emitted
        (run 48000 (destructor example_recording)
           [CaptureResult [7, 9] [3] 96000, ShowAnimationFinished True, CaptureUpdated 5 100]) =
       Some (emitted example_recording @ [CaptureStop])"
proof -
  have a: "recording example_recording"
    by code_simp
  have b: "run 48000 (destructor example_recording)
           [CaptureResult [7, 9] [3] 96000, ShowAnimationFinished True, CaptureUpdated 5 100]
      \<noteq> None"
    by code_simp
  show ?thesis
    using a b destructor_discards [OF a, of 48000]
    by (auto simp del: run.simps)
qed

subsection \<open>One confirmation box\<close>

lemma prompt_inv_prompts: "prompts s' = prompts s \<Longrightarrow> prompt_inv s' = prompt_inv s"
  by (simp add: prompts_def prompt_inv_def split: option.splits)

lemma prompt_inv_length: "prompt_inv s \<Longrightarrow> length (boxes s) \<le> 1"
  by (auto simp: prompt_inv_def split: option.splits)

lemma prompts_emit [simp]: "prompts (emit s os) = prompts s"
  by (simp add: prompts_def emit_def)

lemma prompts_set_recording [simp]: "prompts (set_recording s v) = prompts s"
  by (simp add: set_recording_def) (simp add: prompts_def emit_def)

lemma prompts_set_inField [simp]: "prompts (set_inField s v) = prompts s"
  by (simp add: prompts_def set_inField_def)

lemma prompts_set_lockShowing [simp]: "prompts (set_lockShowing s v) = prompts s"
  by (simp add: prompts_def set_lockShowing_def Let_def emit_def)

lemma prompts_stop [simp]: "prompts (stop s send) = prompts s"
proof -
  have "prompts (stop s send) = prompts (set_lockShowing s False)"
    by (simp add: prompts_def stop_def visibilityAnimate_def)
  then show ?thesis by simp
qed

lemma prompts_stopRecording [simp]: "prompts (stopRecording s send) = prompts s"
  by (simp add: stopRecording_def) (simp add: prompts_def emit_def)

lemma prompts_stopRecordingResult [simp]:
  "prompts (stopRecordingResult freq s b w n) = prompts s"
  by (simp add: stopRecordingResult_def)

lemma prompt_inv_lifetime: "prompt_inv s \<Longrightarrow> prompt_inv (recordingLifetime_destroy s)"
  using prompt_inv_length [of s] by (simp add: prompt_inv_def recordingLifetime_destroy_def)

lemma prompt_inv_disappearance:
  assumes "prompt_inv s" "disappearanceCallback s send = Some s'"
  shows "prompt_inv s'"
proof -
  define t where "t = set_inField (stopRecording (set_recording (s\<lparr>isHidden := True\<rparr>) False) send) False"
  have "prompts t = prompts s"
    by (simp add: t_def) (simp add: prompts_def)
  then have "prompt_inv t"
    using assms(1) prompt_inv_prompts by blast
  then have l: "prompt_inv (recordingLifetime_destroy t)"
    by (rule prompt_inv_lifetime)
  have "prompts s' = prompts (recordingLifetime_destroy t)"
    using assms(2)
    by (auto simp: disappearanceCallback_def Let_def t_def prompts_def emit_def
        split: if_splits)
  then show ?thesis
    using l prompt_inv_prompts by blast
qed

lemma prompts_appearance:
  "appearanceCallback s av = Some s' \<Longrightarrow> prompts s' = prompts s"
proof -
  assume a: "appearanceCallback s av = Some s'"
  have g: "prompts (t\<lparr>captureUpdates := Some False\<rparr>) = prompts t" for t
    by (simp add: prompts_def)
  show ?thesis
    using a by (auto simp: appearanceCallback_def Let_def g split: if_splits)
qed

lemma prompt_inv_showAnimationFinished:
  assumes "prompt_inv s" "showAnimationFinished s av = Some s'"
  shows "prompt_inv s'"
proof -
  have g: "prompts (s\<lparr>showAnimation := None\<rparr>) = prompts s"
    by (simp add: prompts_def)
  then have i: "prompt_inv (s\<lparr>showAnimation := None\<rparr>)"
    using assms(1) prompt_inv_prompts by blast
  show ?thesis
    using assms i g prompts_appearance [of "s\<lparr>showAnimation := None\<rparr>" av s']
      prompt_inv_disappearance [OF i, of _ s'] prompt_inv_prompts [of s' s]
    by (auto simp: showAnimationFinished_def Let_def split: option.splits callback.splits)
qed

lemma prompts_startRecording [simp]: "prompts (startRecording s) = prompts s"
  by (simp add: prompts_def startRecording_def Let_def visibilityAnimate_def set_inField_def)

lemma prompts_recordUpdated [simp]: "prompts (recordUpdated freq s l n) = prompts s"
proof -
  have g: "prompts (s\<lparr>recordingSamples := n\<rparr>) = prompts s"
    by (simp add: prompts_def)
  show ?thesis by (simp add: recordUpdated_def Let_def g)
qed

lemma prompts_captureUpdated [simp]: "prompts (captureUpdated freq s l n) = prompts s"
proof -
  have g: "prompts (s\<lparr>captureUpdates := Some True\<rparr>) = prompts s"
    by (simp add: prompts_def)
  show ?thesis by (simp add: captureUpdated_def Let_def g split: option.splits)
qed

lemma prompts_captureError [simp]: "prompts (captureError s) = prompts s"
proof -
  have "prompts (s\<lparr>captureUpdates := None\<rparr>) = prompts s"
    by (simp add: prompts_def)
  then show ?thesis by (simp add: captureError_def)
qed

lemma prompts_finishAnimating [simp]: "prompts (finishAnimating s) = prompts s"
  by (simp add: prompts_def finishAnimating_def)

lemma prompts_typeRecord [simp]: "prompts (s\<lparr>typeRecord := b\<rparr>) = prompts s"
  by (simp add: prompts_def)

lemma prompts_captureResult [simp]: "prompts (captureResult freq s b w n) = prompts s"
proof -
  have g: "prompts (s\<lparr>resultCallbacks := k\<rparr>) = prompts s" for k
    by (simp add: prompts_def)
  show ?thesis by (simp add: captureResult_def Let_def g)
qed

text \<open>While the lock is locked it ignores every request, and hiding it fires nothing.\<close>

lemma lock_hide_not_fired: "snd (lock_hide l) = False"
  by (simp add: lock_hide_def assign_progress_def Let_def isLocked_def f64_eq_def)

lemma compute_locked:
  "isLocked (lock s) \<Longrightarrow> computeAndSetLockProgress s p = s"
  by (simp add: computeAndSetLockProgress_def requestPaintProgress_locked with_lock_def)

lemma prompts_showLockAnimationFinished:
  "isLocked (lock s) \<Longrightarrow> prompts (showLockAnimationFinished s p) = prompts s"
proof -
  assume l: "isLocked (lock s)"
  have g: "prompts (s\<lparr>showLockAnimation := None\<rparr>) = prompts s"
    by (simp add: prompts_def)
  have c: "computeAndSetLockProgress (s\<lparr>showLockAnimation := None\<rparr>) p
      = s\<lparr>showLockAnimation := None\<rparr>"
    using l by (simp add: compute_locked)
  have h: "prompts (with_lock t (lock_hide l)) = prompts t" for t l
    by (simp add: with_lock_def lock_hide_not_fired Let_def) (simp add: prompts_def)
  show ?thesis
    by (simp add: showLockAnimationFinished_def Let_def c g h split: option.splits)
qed

lemma sendEvent_locked: "isLocked (lock s) \<Longrightarrow> sendEvent s e = Some s"
  by (simp add: sendEvent_def)

lemma prompts_levelEvent: "levelEvent s e = Some s' \<Longrightarrow> prompts s' = prompts s"
  by (auto simp: levelEvent_def split: if_splits level_event.splits)

lemma prompts_computeResult [simp]: "prompts (snd (computeResult s b e esc)) = prompts s"
  by (simp add: computeResult_def Let_def split: qevent.splits)

lemma prompt_inv_showBox: "prompt_inv s \<Longrightarrow> prompt_inv (showBox s)"
  by (auto simp: prompt_inv_def showBox_def Let_def emit_def split: option.splits)

lemma prompt_inv_filterCallback:
  assumes "prompt_inv s"
  shows "prompt_inv (snd (filterCallback s e esc))"
proof (cases "clickOutsideFilter s")
  case None
  then show ?thesis using assms by (simp add: filterCallback_def)
next
  case (Some b)
  obtain t s1 where c: "computeResult s b e esc = (t, s1)"
    by (cases "computeResult s b e esc")
  have "prompts s1 = prompts s"
    using prompts_computeResult [of s b e esc] c by simp
  then have i: "prompt_inv s1"
    using assms prompt_inv_prompts by blast
  show ?thesis
    using Some c i prompt_inv_showBox [OF i] by (cases t) (simp_all add: filterCallback_def)
qed

lemma prompt_inv_boxDestroyed: "prompt_inv s \<Longrightarrow> prompt_inv (boxDestroyed s i)"
  by (auto simp: prompt_inv_def boxDestroyed_def split: option.splits if_splits
      intro: le_trans [OF length_removeAll_less_eq])

lemma prompt_inv_sure:
  assumes "prompt_inv s" "sure s i = Some s'"
  shows "prompt_inv s'"
proof -
  have "prompt_inv (stop s False)"
    using assms(1) prompt_inv_prompts [of "stop s False" s] by simp
  then have "prompt_inv (boxDestroyed (stop s False) i)"
    by (rule prompt_inv_boxDestroyed)
  then show ?thesis
    using assms by (auto simp: sure_def split: if_splits)
qed

lemma prompt_inv_destructor: "prompt_inv s \<Longrightarrow> prompt_inv (destructor s)"
proof -
  assume a: "prompt_inv s"
  have g: "prompts (t\<lparr>alive := False, showAnimation := None, showLockAnimation := None\<rparr>)
      = prompts t" for t
    by (simp add: prompts_def)
  have "prompt_inv (if recording s then stopRecording s False else s)"
    using a prompt_inv_prompts [of "stopRecording s False" s] by simp
  then have "prompt_inv (recordingLifetime_destroy (if recording s then stopRecording s False else s))"
    by (rule prompt_inv_lifetime)
  then show ?thesis
    using prompt_inv_prompts [OF g] by (simp add: destructor_def Let_def)
qed

lemma prompt_inv_handle:
  assumes "prompt_inv s" "isLocked (lock s)" "handle freq s e = Some s'"
  shows "prompt_inv s'"
proof (cases e)
  case StartRecording
  then show ?thesis
    using assms prompt_inv_prompts [of "startRecording s" s] by auto
next
  case (ShowAnimationFinished av)
  then show ?thesis
    using assms prompt_inv_showAnimationFinished [of s av s'] by auto
next
  case FinishAnimating
  then show ?thesis
    using assms prompt_inv_prompts [of "finishAnimating s" s] by auto
next
  case (ShowLockAnimationFinished p)
  then show ?thesis
    using assms prompts_showLockAnimationFinished [of s p]
      prompt_inv_prompts [of "showLockAnimationFinished s p" s]
    by auto
next
  case (CaptureUpdated l n)
  then show ?thesis
    using assms prompt_inv_prompts [of "captureUpdated freq s l n" s] by auto
next
  case CaptureError
  then show ?thesis
    using assms prompt_inv_prompts [of "captureError s" s] by auto
next
  case (SendEvent x)
  then show ?thesis
    using assms by (auto simp: sendEvent_locked)
next
  case (LevelEvent x)
  then show ?thesis
    using assms prompts_levelEvent [of s x s'] prompt_inv_prompts [of s' s] by auto
next
  case (FilterEvent x esc)
  then show ?thesis
    using assms prompt_inv_filterCallback [of s x esc] by auto
next
  case (BoxSure i)
  then show ?thesis using assms by auto
next
  case (BoxDestroyed i)
  then show ?thesis using assms by auto
next
  case (CaptureResult b w n)
  then show ?thesis using assms by auto
next
  case (SetTypeRecord b)
  then show ?thesis
    using assms prompt_inv_prompts [of "s\<lparr>typeRecord := b\<rparr>" s] by auto
next
  case Destroy
  then show ?thesis
    using assms prompt_inv_destructor [of s] by auto
qed

lemma prompt_inv_step:
  assumes "prompt_inv s" "isLocked (lock s)" "step freq s e = Some s'"
  shows "prompt_inv s'"
proof (cases e)
  case (BoxSure i)
  then show ?thesis
    using assms prompt_inv_sure [of s i s'] by simp
next
  case (BoxDestroyed i)
  then show ?thesis
    using assms prompt_inv_boxDestroyed [of s i] by auto
next
  case (CaptureResult b w n)
  then show ?thesis
    using assms prompt_inv_prompts [of "captureResult freq s b w n" s] by auto
qed (use assms prompt_inv_handle [of s freq e s'] in \<open>auto split: if_splits simp del: handle.simps\<close>)

lemma prompt_inv_run:
  "prompt_inv s \<Longrightarrow> locked_phase freq s es \<Longrightarrow> run freq s es = Some s' \<Longrightarrow> prompt_inv s'"
proof (induction es arbitrary: s)
  case Nil
  then show ?case by simp
next
  case (Cons e es)
  from Cons.prems(3) obtain s1 where s1: "step freq s e = Some s1" "run freq s1 es = Some s'"
    by (auto split: option.splits)
  have l: "isLocked (lock s)" "locked_phase freq s1 es"
    using Cons.prems(2) s1(1) by simp_all
  have "prompt_inv s1"
    using prompt_inv_step [OF Cons.prems(1) l(1) s1(1)] .
  then show ?case
    using Cons.IH [OF _ l(2) s1(2)] by simp
qed

lemma filterCallback_outstanding:
  "clickOutsideFilter s = Some (Some i) \<Longrightarrow> snd (filterCallback s e esc) = s"
  by (cases e)
    (auto simp: filterCallback_def computeResult_def showBox_def Let_def
      split: key.splits)

text \<open>
  C8. Take a state in which the boxes and the pointer of the filter agree, as they do when
  the filter is installed and no box is left from before, and any events that arrive while
  the lock is locked. Afterwards at most one confirmation box exists; and while the pointer
  of the filter is set, \<^verbatim>\<open>showBox\<close> and the whole filter callback leave the state as it
  is, for every event: the box stays, and no second one is opened.
\<close>

theorem one_prompt_at_a_time:
  assumes "prompt_inv s" "locked_phase freq s es" "run freq s es = Some s'"
  shows "length (boxes s') \<le> 1
    \<and> (clickOutsideFilter s' = Some (Some i) \<longrightarrow>
          boxes s' = [i] \<and> showBox s' = s' \<and> snd (filterCallback s' e esc) = s')"
proof -
  have p: "prompt_inv s'"
    using prompt_inv_run [OF assms] .
  have "boxes s' = [i] \<and> showBox s' = s' \<and> snd (filterCallback s' e esc) = s'"
    if f: "clickOutsideFilter s' = Some (Some i)"
    using p f filterCallback_outstanding [OF f, of e esc]
    by (simp add: prompt_inv_def showBox_def)
  then show ?thesis
    using prompt_inv_length [OF p] by blast
qed

theorem one_prompt_at_a_time_witness:
  "prompt_inv example_locked
   \<and> locked_phase 48000 example_locked
        [FilterEvent (KeyPress Key_Escape) False, FilterEvent ContextMenu False]
   \<and> run 48000 example_locked
        [FilterEvent (KeyPress Key_Escape) False, FilterEvent ContextMenu False]
       = Some example_prompt
   \<and> clickOutsideFilter example_prompt = Some (Some 0)
   \<and> boxes example_prompt = [0]
   \<and> length (boxes example_prompt) \<le> 1
   \<and> snd (filterCallback example_prompt Shortcut False) = example_prompt"
proof -
  have a: "prompt_inv example_locked"
    by code_simp
  have b: "locked_phase 48000 example_locked
        [FilterEvent (KeyPress Key_Escape) False, FilterEvent ContextMenu False]"
    by code_simp
  have c: "run 48000 example_locked
        [FilterEvent (KeyPress Key_Escape) False, FilterEvent ContextMenu False]
       = Some example_prompt"
    by code_simp
  have d: "clickOutsideFilter example_prompt = Some (Some 0)"
    by code_simp
  show ?thesis
    using a b c d one_prompt_at_a_time [OF a b c, of 0 Shortcut False]
    by simp
qed

subsection \<open>Rounding to binary64\<close>

lemma pow_of_int_le: "0 \<le> n \<Longrightarrow> (2::int) ^ nat n \<le> a \<Longrightarrow> (2::rat) powi n \<le> of_int a"
proof -
  assume n: "0 \<le> n" and a: "(2::int) ^ nat n \<le> a"
  have "(of_int ((2::int) ^ nat n) :: rat) \<le> of_int a"
    using a by (rule of_int_le_iff [THEN iffD2])
  then show ?thesis
    using n by (simp add: power_int_nonneg_exp)
qed

lemma of_int_less_pow: "0 \<le> n \<Longrightarrow> a < (2::int) ^ nat n \<Longrightarrow> (of_int a :: rat) < 2 powi n"
proof -
  assume n: "0 \<le> n" and a: "a < (2::int) ^ nat n"
  have "(of_int a :: rat) < of_int ((2::int) ^ nat n)"
    using a by (rule of_int_less_iff [THEN iffD2])
  then show ?thesis
    using n by (simp add: power_int_nonneg_exp)
qed

lemma pow2_add: "(2::rat) powi (m + n) = 2 powi m * 2 powi n"
  by (rule power_int_add) simp

lemma expo_bounds:
  assumes "0 < x"
  shows "2 powi (expo x) \<le> x \<and> x < 2 powi (expo x + 1)"
proof -
  obtain a b where q: "quotient_of x = (a, b)" by (cases "quotient_of x")
  have b: "0 < b" using quotient_of_denom_pos [OF q] .
  have x: "x = of_int a / of_int b" using quotient_of_div [OF q] .
  have a: "0 < a"
    using assms b x by (simp add: zero_less_divide_iff)
  define la where "la = bitlen a"
  define lb where "lb = bitlen b"
  have la: "1 \<le> la" "2 ^ nat (la - 1) \<le> a" "a < 2 ^ nat la"
    using bitlen_bounds [OF a] a bitlen_eq_zero_iff [of a] bitlen_nonneg [of a]
    by (auto simp: la_def)
  have lb: "1 \<le> lb" "2 ^ nat (lb - 1) \<le> b" "b < 2 ^ nat lb"
    using bitlen_bounds [OF b] b bitlen_eq_zero_iff [of b] bitlen_nonneg [of b]
    by (auto simp: lb_def)
  have pa: "(2::rat) powi (la - 1) \<le> of_int a" "(of_int a :: rat) < 2 powi la"
    using la pow_of_int_le [of "la - 1" a] of_int_less_pow [of la a] by simp_all
  have pb: "(2::rat) powi (lb - 1) \<le> of_int b" "(of_int b :: rat) < 2 powi lb"
    using lb pow_of_int_le [of "lb - 1" b] of_int_less_pow [of lb b] by simp_all
  have bpos: "(0::rat) < of_int b" using b by simp
  have up: "x < 2 powi (la - lb + 1)"
  proof -
    have "(2::rat) powi la = 2 powi (la - lb + 1) * 2 powi (lb - 1)"
      using pow2_add [of "la - lb + 1" "lb - 1"] by simp
    then have "of_int a < (2::rat) powi (la - lb + 1) * 2 powi (lb - 1)"
      using pa(2) by simp
    also have "\<dots> \<le> 2 powi (la - lb + 1) * of_int b"
      using pb(1) by (intro mult_left_mono) auto
    finally show ?thesis
      using bpos by (simp add: x pos_divide_less_eq)
  qed
  have lo: "2 powi (la - lb - 1) < x"
  proof -
    have "(2::rat) powi (la - lb - 1) * of_int b < 2 powi (la - lb - 1) * 2 powi lb"
      using pb(2) by (intro mult_strict_left_mono) auto
    also have "\<dots> = 2 powi (la - 1)"
      using pow2_add [of "la - lb - 1" lb] by simp
    also have "\<dots> \<le> of_int a" using pa(1) .
    finally show ?thesis
      using bpos by (simp add: x pos_less_divide_eq)
  qed
  have e: "expo x = (if 2 powi (la - lb) \<le> x then la - lb else la - lb - 1)"
    by (simp add: expo_def q la_def lb_def Let_def)
  show ?thesis
  proof (cases "2 powi (la - lb) \<le> x")
    case True
    then show ?thesis using up e by simp
  next
    case False
    then show ?thesis using lo e by simp
  qed
qed

lemma expo_unique:
  assumes "0 < x" "2 powi e \<le> x" "x < 2 powi (e + 1)"
  shows "expo x = e"
proof -
  have b: "2 powi (expo x) \<le> x" "x < 2 powi (expo x + 1)"
    using expo_bounds [OF assms(1)] by simp_all
  have "(2::rat) powi e < 2 powi (expo x + 1)"
    using assms(2) b(2) by simp
  then have 1: "e < expo x + 1"
    using power_int_increasing [of "expo x + 1" e "2::rat"] by (cases "e < expo x + 1") auto
  have "(2::rat) powi (expo x) < 2 powi (e + 1)"
    using assms(3) b(1) by simp
  then have 2: "expo x < e + 1"
    using power_int_increasing [of "e + 1" "expo x" "2::rat"] by (cases "expo x < e + 1") auto
  show ?thesis using 1 2 by simp
qed

lemma rhe_error: "\<bar>of_int (rhe q) - q\<bar> \<le> 1 / 2"
proof -
  define f where "f = \<lfloor>q\<rfloor>"
  define r where "r = q - of_int f"
  have r: "0 \<le> r" "r < 1"
    unfolding r_def f_def by linarith+
  have q: "q = of_int f + r" by (simp add: r_def)
  have "rhe q = (if r < 1 / 2 then f else if 1 / 2 < r then f + 1
      else if even f then f else f + 1)"
    by (simp add: rhe_def Let_def f_def r_def)
  then show ?thesis
    using r q by (auto simp: abs_if)
qed

lemma rhe_eq:
  assumes "\<bar>q - of_int n\<bar> \<le> 1 / 2" "\<bar>q - of_int n\<bar> = 1 / 2 \<longrightarrow> even n"
  shows "rhe q = n"
proof -
  define f where "f = \<lfloor>q\<rfloor>"
  define r where "r = q - of_int f"
  have r: "0 \<le> r" "r < 1"
    unfolding r_def f_def by linarith+
  have q: "q = of_int f + r" by (simp add: r_def)
  have d: "rhe q = (if r < 1 / 2 then f else if 1 / 2 < r then f + 1
      else if even f then f else f + 1)"
    by (simp add: rhe_def Let_def f_def r_def)
  have b: "of_int n \<le> of_int f + r + 1 / 2" "of_int f + r - 1 / 2 \<le> of_int n"
    using assms(1) q by (auto simp: abs_if split: if_splits)
  show ?thesis
  proof (cases "r < 1 / 2")
    case True
    have "(of_int n :: rat) < of_int (f + 1)" "(of_int (f - 1) :: rat) < of_int n"
      using b True r by simp_all
    then have "n < f + 1" "f - 1 < n"
      by (simp_all only: of_int_less_iff)
    then show ?thesis using d True by simp
  next
    case nlt: False
    show ?thesis
    proof (cases "1 / 2 < r")
      case True
      have "(of_int n :: rat) < of_int (f + 2)" "(of_int f :: rat) < of_int n"
        using b True r by simp_all
      then have "n < f + 2" "f < n"
        by (simp_all only: of_int_less_iff)
      then show ?thesis using d True nlt by simp
    next
      case False
      then have h: "r = 1 / 2" using nlt by simp
      have "(of_int n :: rat) < of_int (f + 2)" "(of_int (f - 1) :: rat) < of_int n"
        using b h by simp_all
      then have "n < f + 2" "f - 1 < n"
        by (simp_all only: of_int_less_iff)
      then have c: "n = f \<or> n = f + 1" by auto
      have t: "\<bar>q - of_int n\<bar> = 1 / 2"
        using c q h by (auto simp: abs_if)
      then have "even n" using assms(2) by simp
      then show ?thesis
        using c d h by auto
    qed
  qed
qed

text \<open>Rounding a positive number: the significand, the unit in the last place.\<close>

lemma f64_round_pos:
  assumes "0 < x"
  shows "f64_round x = of_int (rhe (x / 2 powi (expo x - 52))) * 2 powi (expo x - 52)"
    and "2 ^ 52 \<le> x / 2 powi (expo x - 52)"
    and "x / 2 powi (expo x - 52) < 2 ^ 53"
proof -
  define u :: rat where "u = 2 powi (expo x - 52)"
  have u: "0 < u" by (simp add: u_def)
  have e: "2 powi (expo x) \<le> x" "x < 2 powi (expo x + 1)"
    using expo_bounds [OF assms] by simp_all
  have 1: "(2::rat) powi (expo x) = 2 ^ 52 * u"
    using pow2_add [of 52 "expo x - 52"] by (simp add: u_def)
  have 2: "(2::rat) powi (expo x + 1) = 2 ^ 53 * u"
    using pow2_add [of 53 "expo x - 52"] by (simp add: u_def add.commute)
  show "f64_round x = of_int (rhe (x / 2 powi (expo x - 52))) * 2 powi (expo x - 52)"
    using assms by (simp add: f64_round_def Let_def)
  show "2 ^ 52 \<le> x / 2 powi (expo x - 52)"
    using e(1) u unfolding 1 u_def [symmetric] by (simp add: pos_le_divide_eq)
  show "x / 2 powi (expo x - 52) < 2 ^ 53"
    using e(2) u unfolding 2 u_def [symmetric] by (simp add: pos_divide_less_eq)
qed

lemma f64_round_error:
  assumes "0 < x"
  shows "\<bar>f64_round x - x\<bar> \<le> x / 2 ^ 53" and "0 < f64_round x"
proof -
  define u :: rat where "u = 2 powi (expo x - 52)"
  define w where "w = x / u"
  define k where "k = rhe w"
  have u: "0 < u" by (simp add: u_def)
  have f: "f64_round x = of_int k * u" and w: "2 ^ 52 \<le> w" "w < 2 ^ 53"
    using f64_round_pos [OF assms] by (simp_all add: u_def w_def k_def)
  have x: "w * u = x" using u by (simp add: w_def)
  have k: "\<bar>of_int k - w\<bar> \<le> 1 / 2"
    unfolding k_def by (rule rhe_error)
  have "f64_round x - x = of_int k * u - w * u"
    by (simp only: f x)
  then have "f64_round x - x = (of_int k - w) * u"
    by (simp add: left_diff_distrib)
  then have "\<bar>f64_round x - x\<bar> = \<bar>of_int k - w\<bar> * u"
    using u by (simp add: abs_mult)
  also have "\<dots> \<le> (1 / 2) * u"
    using k u by (intro mult_right_mono) auto
  also have "\<dots> \<le> (w / 2 ^ 53) * u"
  proof -
    have "(1::rat) / 2 \<le> w / 2 ^ 53" using w(1) by simp
    then show ?thesis using u by (intro mult_right_mono) auto
  qed
  finally show "\<bar>f64_round x - x\<bar> \<le> x / 2 ^ 53"
    using x by simp
  have "0 < (of_int k :: rat)"
    using k w(1) by (auto simp: abs_if split: if_splits)
  then show "0 < f64_round x"
    using u by (simp add: f)
qed

lemma expo_less:
  assumes "0 < x" "x < 2 powi n"
  shows "expo x < n"
proof (rule ccontr)
  assume "\<not> expo x < n"
  then have "(2::rat) powi n \<le> 2 powi (expo x)"
    by (intro power_int_increasing) auto
  then show False
    using expo_bounds [OF assms(1)] assms(2) by simp
qed

lemma f64_round_scaled:
  assumes "2 ^ 52 \<le> q" "q < 2 ^ 53" "\<bar>q - of_int n\<bar> \<le> 1 / 2"
    "\<bar>q - of_int n\<bar> = 1 / 2 \<longrightarrow> even n"
  shows "f64_round (q * 2 powi g) = of_int n * 2 powi g"
proof -
  define t where "t = q * 2 powi g"
  have q: "0 < q" using assms(1) by (rule less_le_trans [rotated]) simp
  have t: "0 < t" using q by (simp add: t_def)
  have 1: "(2::rat) powi (g + 52) = 2 ^ 52 * 2 powi g"
    using pow2_add [of 52 g] by (simp add: add.commute)
  have 2: "(2::rat) powi (g + 52 + 1) = 2 ^ 53 * 2 powi g"
    using pow2_add [of 53 g] by (simp add: add.commute)
  have "2 powi (g + 52) \<le> t"
    unfolding 1 t_def using assms(1) by (intro mult_right_mono) auto
  moreover have "t < 2 powi (g + 52 + 1)"
    unfolding 2 t_def using assms(2) by (intro mult_strict_right_mono) auto
  ultimately have e: "expo t = g + 52"
    using t by (intro expo_unique) auto
  have "f64_round t = of_int (rhe (t / 2 powi (expo t - 52))) * 2 powi (expo t - 52)"
    using f64_round_pos(1) [OF t] .
  also have "t / 2 powi (expo t - 52) = q"
    unfolding e by (simp add: t_def)
  also have "rhe q = n"
    using assms(3,4) by (rule rhe_eq)
  finally show ?thesis
    unfolding e by (simp add: t_def)
qed

lemma tenths_exact:
  assumes "1 \<le> m" "m < 2 ^ 40"
  shows "f64_round (10 * f64_round (of_int m / 10)) = of_int m"
proof -
  define z :: rat where "z = of_int m / 10"
  define e where "e = expo z"
  define u :: rat where "u = 2 powi (e - 52)"
  define w where "w = z / u"
  define k where "k = rhe w"
  have z: "0 < z" using assms(1) by (simp add: z_def)
  have u: "0 < u" by (simp add: u_def)
  have f: "f64_round z = of_int k * u" and w: "2 ^ 52 \<le> w" "w < 2 ^ 53"
    using f64_round_pos [OF z] by (simp_all add: u_def w_def k_def e_def)
  have "(of_int m :: rat) < of_int (2 ^ 40)"
    using assms(2) by (rule of_int_less_iff [THEN iffD2])
  then have "z < 2 powi 37"
    by (simp add: z_def)
  then have e: "e < 37"
    unfolding e_def using z by (rule expo_less [rotated])
  define j where "j = nat (52 - e)"
  have j: "16 \<le> j" "e - 52 = - int j" using e by (simp_all add: j_def)
  have uj: "u = 1 / 2 ^ j"
    by (simp add: u_def j(2) power_int_minus_divide)
  define N where "N = m * 2 ^ j"
  have "(2::int) ^ (5 + (j - 5)) = 2 ^ 5 * 2 ^ (j - 5)"
    by (rule power_add)
  then have "(2::int) ^ j = 2 ^ 5 * 2 ^ (j - 5)"
    using j(1) by simp
  then have N32: "32 dvd N" by (simp add: N_def)
  obtain N' where N': "N = 32 * N'" using N32 by (elim dvdE)
  have wN: "w = of_int N / 10"
    by (simp add: w_def z_def uj N_def)
  have mN: "of_int m = of_int N * u"
    by (simp add: uj N_def)
  have kw: "\<bar>of_int k - w\<bar> \<le> 1 / 2"
    unfolding k_def by (rule rhe_error)
  have "\<bar>(of_int (10 * k - N) :: rat)\<bar> \<le> of_int 5"
    using kw by (simp add: wN abs_if split: if_splits)
  then have "\<bar>10 * k - N\<bar> \<le> 5"
    by (simp only: of_int_le_iff flip: of_int_abs)
  then have d: "\<bar>10 * k - N\<bar> \<le> 4"
    using N' by presburger
  have "(of_int (2 ^ 52 - 1) :: rat) < of_int k" "(of_int k :: rat) < of_int (2 ^ 53 + 1)"
    using kw w by (auto simp: abs_if split: if_splits)
  then have "2 ^ 52 - 1 < k" "k < 2 ^ 53 + 1"
    by (simp_all only: of_int_less_iff)
  then have k: "2 ^ 52 \<le> k" "k \<le> 2 ^ 53"
    by simp_all
  have t: "10 * f64_round z = of_int (10 * k) * u"
    by (simp add: f)
  show ?thesis
  proof (cases "10 * k < 2 ^ 56")
    case True
    define q :: rat where "q = of_int (10 * k) / 8"
    have "(of_int (2 ^ 55) :: rat) \<le> of_int (10 * k)" "(of_int (10 * k) :: rat) < of_int (2 ^ 56)"
      using k(1) True by (simp_all only: of_int_le_iff of_int_less_iff) simp_all
    then have q: "2 ^ 52 \<le> q" "q < 2 ^ 53"
      by (simp_all add: q_def)
    have dq: "q - of_int (4 * N') = of_int (10 * k - N) / 8"
      by (simp add: q_def N')
    have "\<bar>(of_int (10 * k - N) :: rat)\<bar> \<le> of_int 4"
      using d by (simp only: of_int_le_iff flip: of_int_abs)
    then have 1: "\<bar>q - of_int (4 * N')\<bar> \<le> 1 / 2"
      unfolding dq by simp
    have r: "f64_round (q * 2 powi (e - 49)) = of_int (4 * N') * 2 powi (e - 49)"
      using q 1 by (intro f64_round_scaled) auto
    have s: "(2::rat) powi (e - 49) = 8 * u"
      using pow2_add [of 3 "e - 52"] by (simp add: u_def)
    have "10 * f64_round z = q * 2 powi (e - 49)"
      by (simp add: t s q_def)
    then have "f64_round (10 * f64_round z) = of_int (4 * N') * 2 powi (e - 49)"
      using r by simp
    also have "\<dots> = of_int N * u"
      by (simp add: s N')
    finally show ?thesis
      by (simp add: mN z_def)
  next
    case False
    define q :: rat where "q = of_int (10 * k) / 16"
    have "(of_int (2 ^ 56) :: rat) \<le> of_int (10 * k)" "(of_int (10 * k) :: rat) < of_int (2 ^ 57)"
      using k(2) False by (simp_all only: of_int_le_iff of_int_less_iff) simp_all
    then have q: "2 ^ 52 \<le> q" "q < 2 ^ 53"
      by (simp_all add: q_def)
    have dq: "q - of_int (2 * N') = of_int (10 * k - N) / 16"
      by (simp add: q_def N')
    have "\<bar>(of_int (10 * k - N) :: rat)\<bar> \<le> of_int 4"
      using d by (simp only: of_int_le_iff flip: of_int_abs)
    then have 1: "\<bar>q - of_int (2 * N')\<bar> \<le> 1 / 4"
      unfolding dq by simp
    have r: "f64_round (q * 2 powi (e - 48)) = of_int (2 * N') * 2 powi (e - 48)"
      using q 1 by (intro f64_round_scaled) auto
    have s: "(2::rat) powi (e - 48) = 16 * u"
      using pow2_add [of 4 "e - 52"] by (simp add: u_def)
    have "10 * f64_round z = q * 2 powi (e - 48)"
      by (simp add: t s q_def)
    then have "f64_round (10 * f64_round z) = of_int (2 * N') * 2 powi (e - 48)"
      using r by simp
    also have "\<dots> = of_int N * u"
      by (simp add: s N')
    finally show ?thesis
      by (simp add: mN z_def)
  qed
qed

lemma duration_floor:
  assumes "0 < f" "0 \<le> s" "s < 2 ^ 31"
  shows "\<lfloor>f64_round (10 * f64_round (of_int s / of_int f))\<rfloor> = (10 * s) div f
    \<and> 0 \<le> f64_round (10 * f64_round (of_int s / of_int f))"
proof (cases "s = 0")
  case True
  then show ?thesis by (simp add: f64_round_def)
next
  case False
  then have s: "0 < s" using assms(2) by simp
  define m where "m = (10 * s) div f"
  define r where "r = (10 * s) mod f"
  have mr: "10 * s = m * f + r" "0 \<le> r" "r < f"
    using assms(1) by (simp_all add: m_def r_def)
  define V :: rat where "V = 1 / of_int f"
  have V: "0 < V" using assms(1) by (simp add: V_def)
  have fV: "of_int f * V = 1" using assms(1) by (simp add: V_def)
  define q :: rat where "q = of_int s / of_int f"
  have q: "0 < q" using s assms(1) by (simp add: q_def)
  have m0: "0 \<le> m" using s assms(1) by (simp add: m_def pos_imp_zdiv_nonneg_iff)
  show ?thesis
  proof (cases "r = 0")
    case True
    have "of_int (10 * s) = (of_int (m * f) :: rat)"
      using mr(1) True by simp
    then have qe: "q = of_int m / 10"
      using assms(1) by (simp add: q_def field_simps)
    have "1 \<le> m"
    proof (rule ccontr)
      assume "\<not> 1 \<le> m"
      then have "m = 0" using m0 by simp
      then show False using mr(1) True s by simp
    qed
    moreover have "m < 2 ^ 40"
    proof -
      have "m * 1 \<le> m * f" using m0 assms(1) by (intro mult_left_mono) auto
      then show ?thesis using mr(1) True assms(3) by simp
    qed
    ultimately have "f64_round (10 * f64_round q) = of_int m"
      unfolding qe by (rule tenths_exact)
    then show ?thesis
      using m0 by (simp add: q_def m_def)
  next
    case False
    then have r: "1 \<le> r" "r + 1 \<le> f" using mr by simp_all
    define R :: rat where "R = of_int r * V"
    define x :: rat where "x = 10 * q"
    have "(of_int 1 :: rat) \<le> of_int r"
      using r(1) by (simp only: of_int_le_iff)
    then have "of_int 1 * V \<le> of_int r * V"
      using V by (intro mult_right_mono) simp_all
    then have R1: "V \<le> R" by (simp add: R_def)
    have "(of_int (r + 1) :: rat) \<le> of_int f"
      using r(2) by (simp only: of_int_le_iff)
    then have "of_int (r + 1) * V \<le> of_int f * V"
      using V by (intro mult_right_mono) simp_all
    then have R2: "R \<le> 1 - V"
      unfolding fV by (simp add: R_def algebra_simps)
    have xs: "x = of_int (10 * s) * V"
      by (simp add: x_def q_def V_def)
    have xm: "x = of_int m + R"
      unfolding xs mr(1) using fV by (simp add: R_def algebra_simps)
    have "(of_int (30 * s) :: rat) < of_int (2 ^ 53)"
      using assms(3) by (simp only: of_int_less_iff) simp
    then have "of_int (30 * s) * V < of_int (2 ^ 53) * V"
      using V by (intro mult_strict_right_mono)
    then have xe: "3 * x / 2 ^ 53 < V"
      by (simp add: xs)
    define y where "y = f64_round q"
    define d where "d = f64_round (10 * y)"
    have y: "\<bar>y - q\<bar> \<le> q / 2 ^ 53" "0 < y"
      using f64_round_error [OF q] by (simp_all add: y_def)
    have y10: "0 < 10 * y" using y(2) by simp
    have d: "\<bar>d - 10 * y\<bar> \<le> 10 * y / 2 ^ 53" "0 < d"
      using f64_round_error [OF y10] by (simp_all add: d_def)
    have x10: "x = 10 * q" by (simp add: x_def)
    have "y - q \<le> q / 2 ^ 53" "q - y \<le> q / 2 ^ 53"
      using y(1) by linarith+
    then have y': "y - q \<le> q / 9007199254740992" "q - y \<le> q / 9007199254740992"
      by simp_all
    have "d - 10 * y \<le> 10 * y / 2 ^ 53" "10 * y - d \<le> 10 * y / 2 ^ 53"
      using d(1) by linarith+
    then have d': "d - 10 * y \<le> 10 * y / 9007199254740992"
      "10 * y - d \<le> 10 * y / 9007199254740992"
      by simp_all
    have xe': "3 * x / 9007199254740992 < V"
      using xe by simp
    have lo: "of_int m \<le> d"
      using y' d' x10 xe' xm R1 R2 q y(2) by linarith
    have hi: "d < of_int m + 1"
      using y' d' x10 xe' xm R1 R2 q y(2) by linarith
    have "\<lfloor>d\<rfloor> = m"
      using lo hi by (intro floor_unique) auto
    then show ?thesis
      using d(2) by (simp add: d_def y_def q_def m_def)
  qed
qed

lemma duration_value:
  assumes "10 \<le> freq" "0 \<le> samples" "samples < 2 ^ 31"
  shows "f64_to_int (f64_mul (f64_of_int kPrecision)
      (f64_div (f64_of_int samples) (f64_of_int freq))) = Some ((10 * samples) div freq)"
proof -
  have f: "0 < freq" using assms(1) by simp
  define d where "d = f64_round (10 * f64_round (of_int samples / of_int freq))"
  have d: "\<lfloor>d\<rfloor> = (10 * samples) div freq" "0 \<le> d"
    using duration_floor [OF f assms(2,3)] by (simp_all add: d_def)
  have "10 * samples div freq \<le> 10 * samples div 10"
    using assms(1,2) by (intro zdiv_mono2) auto
  then have le: "10 * samples div freq \<le> samples" by simp
  have ge: "0 \<le> 10 * samples div freq"
    using f assms(2) by (simp add: pos_imp_zdiv_nonneg_iff)
  have i: "int32 ((10 * samples) div freq)"
    using le ge assms(3) by (simp add: int32_def)
  have "f64_mul (f64_of_int kPrecision) (f64_div (f64_of_int samples) (f64_of_int freq))
      = Finite d"
    using f by (simp add: f64_of_int_def kPrecision_def d_def)
  then show ?thesis
    using d i by (simp add: chk_def)
qed

lemma cdiv_nonneg: "0 \<le> a \<Longrightarrow> 0 < b \<Longrightarrow> cdiv a b = a div b"
  by (simp add: cdiv_def sgn_if)

lemma cmod_nonneg: "0 \<le> a \<Longrightarrow> 0 < b \<Longrightarrow> cmod a b = a mod b"
  by (simp add: cmod_def cdiv_nonneg minus_mult_div_eq_mod)

lemma number_digit: "0 \<le> i \<Longrightarrow> i < 10 \<Longrightarrow> number i = [''0123456789'' ! nat i]"
  by (simp add: number_def digits.simps)

lemma FormatVoiceDuration_value:
  assumes "10 \<le> freq" "0 \<le> samples" "samples < 2 ^ 31"
  shows "FormatVoiceDuration fdt decimalPoint freq samples =
    Some (fdt (samples div freq) @ [decimalPoint]
      @ [''0123456789'' ! nat ((10 * samples) div freq mod 10)])"
proof -
  define m where "m = (10 * samples) div freq"
  have f: "0 < freq" using assms(1) by simp
  have m: "0 \<le> m"
    using f assms(2) by (simp add: m_def pos_imp_zdiv_nonneg_iff)
  have "m div 10 = (10 * samples) div (freq * 10)"
    using zdiv_zmult2_eq [of 10 "10 * samples" freq] by (simp add: m_def)
  also have "\<dots> = samples div freq"
    by (simp add: mult.commute)
  finally have s: "cdiv m kPrecision = samples div freq"
    using m by (simp add: cdiv_nonneg kPrecision_def)
  have t: "cmod m kPrecision = m mod 10"
    using m by (simp add: cmod_nonneg kPrecision_def)
  have n: "number (m mod 10) = [''0123456789'' ! nat (m mod 10)]"
    by (intro number_digit) auto
  show ?thesis
    using duration_value [OF assms]
    by (simp add: FormatVoiceDuration_def Let_def s t n flip: m_def)
qed

text \<open>
  C6, as amended. For a sample rate of at least 10 and a sample count from 0 up to the
  largest \<^verbatim>\<open>int\<close>, \<^verbatim>\<open>FormatVoiceDuration\<close> returns the formatted whole seconds, the decimal
  point of the system locale, and exactly one digit: the tenths of a second, rounded down.
  The two roundings of the binary64 arithmetic never change that digit. With the duration
  format of the spec, 0 samples give \<^verbatim>\<open>0:00\<close>, the decimal point and \<^verbatim>\<open>0\<close>, and one second
  of samples gives \<^verbatim>\<open>0:01\<close>, the decimal point and \<^verbatim>\<open>0\<close>.
\<close>

theorem FormatVoiceDuration_tenths:
  assumes "10 \<le> freq" "freq < 2 ^ 31" "0 \<le> samples" "samples < 2 ^ 31"
  shows "FormatVoiceDuration fdt decimalPoint freq samples =
      Some (fdt (samples div freq) @ [decimalPoint]
        @ [''0123456789'' ! nat ((10 * samples) div freq mod 10)])
    \<and> FormatVoiceDuration FormatDurationText decimalPoint freq 0 =
        Some (''0:00'' @ [decimalPoint] @ ''0'')
    \<and> FormatVoiceDuration FormatDurationText decimalPoint freq freq =
        Some (''0:01'' @ [decimalPoint] @ ''0'')"
proof -
  have f: "0 \<le> freq" "freq \<noteq> 0" using assms(1) by simp_all
  have z: "FormatDurationText 0 = ''0:00''" "FormatDurationText 1 = ''0:01''"
    by (simp_all add: FormatDurationText_def cdiv_def cmod_def number_def digits.simps)
  have 1: "FormatVoiceDuration FormatDurationText decimalPoint freq 0 =
        Some (''0:00'' @ [decimalPoint] @ ''0'')"
    using FormatVoiceDuration_value [OF assms(1), of 0 FormatDurationText decimalPoint] z
    by simp
  have 2: "FormatVoiceDuration FormatDurationText decimalPoint freq freq =
        Some (''0:01'' @ [decimalPoint] @ ''0'')"
    using FormatVoiceDuration_value [OF assms(1) f(1) assms(2), of FormatDurationText
        decimalPoint] z f(2)
    by simp
  show ?thesis
    using FormatVoiceDuration_value [OF assms(1,3,4)] 1 2 by simp
qed

theorem FormatVoiceDuration_tenths_witness:
  "(10::int) \<le> 48000 \<and> (48000::int) < 2 ^ 31 \<and> (0::int) \<le> 4801 \<and> (4801::int) < 2 ^ 31
   \<and> FormatVoiceDuration FormatDurationText (CHR ''.'') 48000 4801 = Some ''0:00.1''
   \<and> FormatVoiceDuration FormatDurationText (CHR ''.'') 48000 0 = Some ''0:00.0''
   \<and> FormatVoiceDuration FormatDurationText (CHR ''.'') 48000 48000 = Some ''0:01.0''"
proof -
  have a: "(10::int) \<le> 48000" "(48000::int) < 2 ^ 31" "(0::int) \<le> 4801"
    "(4801::int) < 2 ^ 31"
    by simp_all
  have b: "FormatDurationText (4801 div 48000) = ''0:00''"
    by code_simp
  have c: "''0123456789'' ! nat (10 * 4801 div 48000 mod 10) = CHR ''1''"
    by code_simp
  show ?thesis
    using a b c FormatVoiceDuration_tenths [OF a, of FormatDurationText "CHR ''.''"]
    by simp
qed

text \<open>
  C6 as stated fails where the decimal point of the system locale is a comma: 0 samples
  are formatted as \<^verbatim>\<open>0:00,0\<close>.
\<close>

theorem FormatVoiceDuration_locale_counterexample:
  "FormatVoiceDuration FormatDurationText (CHR '','') 48000 0 = Some ''0:00,0''
   \<and> FormatVoiceDuration FormatDurationText (CHR '','') 48000 0 \<noteq> Some ''0:00.0''
   \<and> FormatVoiceDuration FormatDurationText (CHR '','') 48000 48000 = Some ''0:01,0''"
  by code_simp

end
